theory Spec2Isabelle
  imports Complex_Main
begin

section \<open>JavaScript values and strings\<close>

text \<open>
  Strings are \<open>string\<close> (lists of 8-bit characters). The only string operations of the
  download-link code that look inside a string are the regular expression
  \<^verbatim>\<open>/[^a-zA-Z0-9]/g\<close> and \<^verbatim>\<open>slice(0, 12)\<close> applied after it; every unit outside
  ASCII is removed by the regular expression whatever its encoding, so the result is the
  same for UTF-16 units and for bytes.

  Numbers that the response carries as sizes, and the application id, are integers.
\<close>

datatype jsval = JNum int | JStr string

definition digit_char :: "nat \<Rightarrow> char" where
  "digit_char d = char_of (48 + d)"

fun string_of_nat :: "nat \<Rightarrow> string" where
  "string_of_nat n =
     (if n < 10 then [digit_char n] else string_of_nat (n div 10) @ [digit_char (n mod 10)])"

declare string_of_nat.simps [simp del]

text \<open>The decimal rendering of an integer by a template literal.\<close>

definition string_of_int :: "int \<Rightarrow> string" where
  "string_of_int i =
     (if i < 0 then CHR ''-'' # string_of_nat (nat (- i)) else string_of_nat (nat i))"

fun to_string :: "jsval \<Rightarrow> string" where
  "to_string (JNum i) = string_of_int i"
| "to_string (JStr s) = s"

text \<open>A string-valued property inside a template literal; a missing one prints as \<open>undefined\<close>.\<close>

fun template_str :: "string option \<Rightarrow> string" where
  "template_str None = ''undefined''"
| "template_str (Some s) = s"

text \<open>Truthiness of an optional string: present and not empty.\<close>

fun truthy :: "string option \<Rightarrow> bool" where
  "truthy None = False"
| "truthy (Some s) = (s \<noteq> [])"

text \<open>\<^verbatim>\<open>lines.join('\n')\<close>\<close>

fun join_lines :: "string list \<Rightarrow> string" where
  "join_lines [] = []"
| "join_lines [l] = l"
| "join_lines (l # m # ls) = l @ CHR 0x0A # join_lines (m # ls)"

text \<open>The characters kept by \<^verbatim>\<open>replace(/[^a-zA-Z0-9]/g, '')\<close>.\<close>

definition alnum :: "char \<Rightarrow> bool" where
  "alnum c =
     (let n = (of_char c :: nat)
      in (97 \<le> n \<and> n \<le> 122) \<or> (65 \<le> n \<and> n \<le> 90) \<or> (48 \<le> n \<and> n \<le> 57))"

text \<open>
  \<^verbatim>\<open>Array.prototype.sort\<close> with a comparator is a stable sort: \<open>a\<close> stays before \<open>b\<close>
  unless the comparator is positive. Insertion from the right gives that order.
\<close>

fun insert_by :: "('a \<Rightarrow> 'a \<Rightarrow> int) \<Rightarrow> 'a \<Rightarrow> 'a list \<Rightarrow> 'a list" where
  "insert_by cmp x [] = [x]"
| "insert_by cmp x (y # ys) = (if cmp x y \<le> 0 then x # y # ys else y # insert_by cmp x ys)"

definition js_sort :: "('a \<Rightarrow> 'a \<Rightarrow> int) \<Rightarrow> 'a list \<Rightarrow> 'a list" where
  "js_sort cmp xs = foldr (insert_by cmp) xs []"

text \<open>\<^verbatim>\<open>Array.from(new Set(xs))\<close>: the first occurrence of every value, in insertion order.\<close>

fun set_from :: "'a list \<Rightarrow> 'a list \<Rightarrow> 'a list" where
  "set_from seen [] = seen"
| "set_from seen (x # xs) = (if x \<in> set seen then set_from seen xs else set_from (seen @ [x]) xs)"


section \<open>The response of the download-link service\<close>

text \<open>One entry of \<open>body.downloadUrls\<close>.\<close>

record download_url =
  u_url :: "string option"
  u_size :: "int option"
  u_hash :: "string option"

record body =
  appId :: "jsval option"
  versionCode :: "jsval option"
  versionId :: "jsval option"
  signature :: "string option"
  downloadUrls :: "download_url list option"

record envelope =
  code :: "string option"
  message :: "string option"
  body :: "body option"


section \<open>The download plan (\<open>buildDownloadPlan\<close>)\<close>

record item =
  idx :: nat
  url :: "string option"
  size' :: "int option"
  hash :: "string option"

datatype role = Base | Config

record plan_item = item +
  role :: role
  filename :: string

text \<open>The object built by the first \<open>map\<close> of \<open>buildDownloadPlan\<close>.\<close>

definition mk_item :: "nat \<times> download_url \<Rightarrow> item" where
  "mk_item p =
     (case p of (i, u) \<Rightarrow>
        \<lparr> idx = i,
          url = u_url u,
          size' = u_size u,
          hash = (if truthy (u_hash u) then u_hash u else None) \<rparr>)"

definition items_of :: "download_url list \<Rightarrow> item list" where
  "items_of urls = filter (\<lambda>i. truthy (url i)) (map mk_item (enumerate 0 urls))"

text \<open>\<^verbatim>\<open>i.size || 0\<close>\<close>

fun size_or_0 :: "int option \<Rightarrow> int" where
  "size_or_0 None = 0"
| "size_or_0 (Some n) = n"

definition by_size_desc :: "item \<Rightarrow> item \<Rightarrow> int" where
  "by_size_desc a b = size_or_0 (size' b) - size_or_0 (size' a)"

text \<open>\<^verbatim>\<open>sortedBySize[0]?.idx\<close>\<close>

definition base_idx :: "item list \<Rightarrow> nat option" where
  "base_idx items = (case js_sort by_size_desc items of [] \<Rightarrow> None | s # _ \<Rightarrow> Some (idx s))"

definition safe_hash :: "string option \<Rightarrow> string" where
  "safe_hash h = take 12 (filter alnum (case h of None \<Rightarrow> [] | Some s \<Rightarrow> s))"

definition hash_suffix :: "string \<Rightarrow> string" where
  "hash_suffix safeHash = (if safeHash \<noteq> [] then ''_'' @ safeHash else [])"

definition base_filename :: "string \<Rightarrow> string \<Rightarrow> string \<Rightarrow> string" where
  "base_filename a v safeHash =
     ''rustore_'' @ a @ ''_'' @ v @ ''_base'' @ hash_suffix safeHash @ ''.apk''"

definition config_filename :: "string \<Rightarrow> string \<Rightarrow> nat \<Rightarrow> string \<Rightarrow> string" where
  "config_filename a v n safeHash =
     ''rustore_'' @ a @ ''_'' @ v @ ''_config'' @ string_of_nat n @ hash_suffix safeHash @ ''.apk''"

text \<open>
  The second \<open>map\<close> of \<open>buildDownloadPlan\<close>, with the variable \<open>configCounter\<close> that its
  callback increments passed along.
\<close>

fun plan_map :: "string \<Rightarrow> string \<Rightarrow> nat option \<Rightarrow> nat \<Rightarrow> item list \<Rightarrow> plan_item list" where
  "plan_map a v baseIdx configCounter [] = []"
| "plan_map a v baseIdx configCounter (i # rest) =
     (let safeHash = safe_hash (hash i)
      in if Some (idx i) = baseIdx
         then item.extend i \<lparr> role = Base, filename = base_filename a v safeHash \<rparr>
              # plan_map a v baseIdx configCounter rest
         else item.extend i \<lparr> role = Config, filename = config_filename a v configCounter safeHash \<rparr>
              # plan_map a v baseIdx (configCounter + 1) rest)"

text \<open>\<^verbatim>\<open>data?.body?.versionCode ?? 'unknown'\<close>, as the template literal prints it.\<close>

definition version_code_str :: "jsval option \<Rightarrow> string" where
  "version_code_str vc = (case vc of None \<Rightarrow> ''unknown'' | Some v \<Rightarrow> to_string v)"

definition buildDownloadPlan :: "int \<Rightarrow> jsval option \<Rightarrow> download_url list \<Rightarrow> plan_item list" where
  "buildDownloadPlan app vc urls =
     (let items = items_of urls
      in plan_map (string_of_int app) (version_code_str vc) (base_idx items) 1 items)"


section \<open>What is shown for a resolved response (\<open>renderDownloadLinks\<close>)\<close>

text \<open>\<^verbatim>\<open>{ screenDensity, withoutSplitsUsed }\<close>\<close>

record meta =
  screenDensity :: int
  withoutSplitsUsed :: bool

text \<open>\<^verbatim>\<open>data?.body?.downloadUrls || []\<close>\<close>

definition urls_of :: "envelope \<Rightarrow> download_url list" where
  "urls_of data =
     (case body data of
        None \<Rightarrow> []
      | Some b \<Rightarrow> (case downloadUrls b of None \<Rightarrow> [] | Some us \<Rightarrow> us))"

definition version_code_of :: "envelope \<Rightarrow> jsval option" where
  "version_code_of data = (case body data of None \<Rightarrow> None | Some b \<Rightarrow> versionCode b)"

text \<open>The lines that the handler of the PowerShell button joins.\<close>

definition pwsh_lines :: "plan_item list \<Rightarrow> bool \<Rightarrow> string list" where
  \<open>pwsh_lines plan isSplitSet =
     [''$ErrorActionPreference = "Stop"'',
      ''$outDir = Join-Path $PWD "downloads"'',
      ''New-Item -ItemType Directory -Force -Path $outDir | Out-Null'']
     @ map (\<lambda>item. ''Invoke-WebRequest -Uri "'' @ template_str (url item)
                    @ ''" -OutFile (Join-Path $outDir "'' @ filename item @ ''")'') plan
     @ [''Write-Host "Done. Files saved to" $outDir'']
     @ (if isSplitSet
        then [[],
              ''# Install (requires adb in PATH and USB debugging enabled)'',
              ''$apks = Get-ChildItem -Path $outDir -Filter "*.apk" | Sort-Object Length -Descending | Select-Object -ExpandProperty FullName'',
              ''Write-Host "Running: adb install-multiple <all apks>"'',
              ''adb install-multiple @apks'']
        else [])\<close>

text \<open>The lines that the handler of the curl button joins.\<close>

definition curl_lines :: "plan_item list \<Rightarrow> bool \<Rightarrow> string list" where
  \<open>curl_lines plan isSplitSet =
     [''mkdir -p downloads'']
     @ map (\<lambda>item. ''curl -L "'' @ template_str (url item)
                    @ ''" -o "downloads/'' @ filename item @ ''"'') plan
     @ (if isSplitSet
        then [[], ''# Install (requires adb)'', ''adb install-multiple downloads/*.apk'']
        else [])\<close>

text \<open>
  The part of the rendering that the copy buttons use: the profile shown as used, the
  links, the plan, and the text that each of the three buttons puts on the clipboard
  (the buttons are there when there is at least one link).
\<close>

record view =
  used :: meta
  allLinks :: "string option list"
  isSplitSet :: bool
  plan :: "plan_item list"
  copyDownloadLinks :: string
  copyPwshScript :: string
  copyCurlCommands :: string

definition renderDownloadLinks :: "int \<Rightarrow> envelope \<Rightarrow> meta \<Rightarrow> view" where
  "renderDownloadLinks app data m =
     (let urls = urls_of data;
          links = filter truthy (map u_url urls);
          split = (length links > 1);
          p = buildDownloadPlan app (version_code_of data) urls
      in \<lparr> used = m,
           allLinks = links,
           isSplitSet = split,
           plan = p,
           copyDownloadLinks = join_lines (map template_str links),
           copyPwshScript = join_lines (pwsh_lines p split),
           copyCurlCommands = join_lines (curl_lines p split) \<rparr>)"


section \<open>The profile ladder and the trial loop (\<open>downloadApp\<close>)\<close>

text \<open>
  \<open>window.devicePixelRatio\<close> is a real number, or missing. \<^verbatim>\<open>devicePixelRatio || 1\<close>
  replaces a missing or zero ratio by 1.
\<close>

definition guessAndroidScreenDensity :: "real option \<Rightarrow> int" where
  "guessAndroidScreenDensity devicePixelRatio =
     (let dpr = (case devicePixelRatio of None \<Rightarrow> 1 | Some r \<Rightarrow> if r = 0 then 1 else r);
          density = (if dpr \<ge> 4 then 640
                     else if dpr \<ge> 3 then 480
                     else if dpr \<ge> 2 then 320
                     else if dpr \<ge> 1.5 then 240
                     else 160)
      in max 240 density)"

text \<open>
  \<open>options.screenDensity\<close> is \<open>Some d\<close> when it is a finite number, here an integer, and
  \<open>None\<close> when it is missing or not a finite number.
\<close>

definition requestedDensity :: "int option \<Rightarrow> real option \<Rightarrow> int" where
  "requestedDensity optDensity devicePixelRatio =
     (case optDensity of Some d \<Rightarrow> d | None \<Rightarrow> guessAndroidScreenDensity devicePixelRatio)"

definition densityCandidates :: "int \<Rightarrow> int list" where
  "densityCandidates requested = set_from [] [requested, 480, 320, 240, 160, 0]"

definition withoutSplitsCandidates :: "bool list" where
  "withoutSplitsCandidates = [False, True]"

text \<open>
  The body of one POST to the download-link endpoint; the other fields of the body are
  the same constants in every request.
\<close>

record request =
  req_appId :: int
  req_sdkVersion :: int
  req_screenDensity :: int
  req_withoutSplits :: bool

text \<open>
  What \<open>fetch\<close> yields: it rejects with an error message, or it resolves to a response
  with a status and a body, which \<open>response.json()\<close> either rejects (\<open>Inl\<close>, with the
  error's message) or parses to an object.
\<close>

datatype fetched = Rejected string | Response int "string + envelope"

text \<open>The service: the result of the n-th request of a run (counted from 0).\<close>

type_synonym service = "nat \<Rightarrow> request \<Rightarrow> fetched"

text \<open>\<open>response.ok\<close>\<close>

definition response_ok :: "int \<Rightarrow> bool" where
  "response_ok status = (200 \<le> status \<and> status \<le> 299)"

text \<open>\<open>requestDownloadLink\<close>: \<open>Inl\<close> is the message of the error thrown.\<close>

definition requestDownloadLink :: "service \<Rightarrow> nat \<Rightarrow> request \<Rightarrow> string + envelope" where
  "requestDownloadLink svc n req =
     (case svc n req of
        Rejected msg \<Rightarrow> Inl msg
      | Response status parsed \<Rightarrow>
          if \<not> response_ok status
          then Inl (''HTTP '' @ string_of_int status @ '': '' @
                 (case parsed of
                    Inl _ \<Rightarrow> ''Unknown error''
                  | Inr errBody \<Rightarrow>
                      if truthy (message errBody) then template_str (message errBody)
                      else ''Unknown error''))
          else (case parsed of Inl msg \<Rightarrow> Inl msg | Inr data \<Rightarrow> Inr data))"

record trial_state =
  calls :: "request list"
  lastData :: "envelope option"
  lastMeta :: meta

text \<open>How a loop body leaves: to the next iteration, by \<open>return\<close> after rendering, or by \<open>throw\<close>.\<close>

datatype flow = Next | Rendered view | Thrown string

text \<open>The inner loop, over \<open>withoutSplitsCandidates\<close>, for one density.\<close>

fun try_splits :: "service \<Rightarrow> int \<Rightarrow> int \<Rightarrow> int \<Rightarrow> bool list \<Rightarrow> trial_state \<Rightarrow> flow \<times> trial_state" where
  "try_splits svc app sdk density [] st = (Next, st)"
| "try_splits svc app sdk density (withoutSplits # rest) st =
     (let req = \<lparr> req_appId = app, req_sdkVersion = sdk,
                  req_screenDensity = density, req_withoutSplits = withoutSplits \<rparr>;
          st1 = st\<lparr> calls := calls st @ [req] \<rparr>
      in case requestDownloadLink svc (length (calls st)) req of
           Inl msg \<Rightarrow> (Thrown msg, st1)
         | Inr data \<Rightarrow>
             if code data \<noteq> Some ''OK''
             then (Thrown (if truthy (message data) then template_str (message data)
                           else ''Server returned error''), st1)
             else
               let st2 = st1\<lparr> lastData := Some data,
                              lastMeta := \<lparr> screenDensity = density,
                                           withoutSplitsUsed = withoutSplits \<rparr> \<rparr>
               in if length (urls_of data) > 0
                  then (Rendered (renderDownloadLinks app data (lastMeta st2)), st2)
                  else try_splits svc app sdk density rest st2)"

text \<open>The outer loop, over \<open>densityCandidates\<close>.\<close>

fun try_densities :: "service \<Rightarrow> int \<Rightarrow> int \<Rightarrow> int list \<Rightarrow> trial_state \<Rightarrow> flow \<times> trial_state" where
  "try_densities svc app sdk [] st = (Next, st)"
| "try_densities svc app sdk (density # rest) st =
     (case try_splits svc app sdk density withoutSplitsCandidates st of
        (Next, st') \<Rightarrow> try_densities svc app sdk rest st'
      | (Rendered v, st') \<Rightarrow> (Rendered v, st')
      | (Thrown msg, st') \<Rightarrow> (Thrown msg, st'))"

text \<open>
  What the modal shows in the end: the links of a response, the notice that every
  profile gave an empty list (with the last response, printed as debug JSON), or the
  error panel with a message.
\<close>

datatype outcome = Success view | EmptyAfterExhaustion "envelope option" | Failure string

text \<open>\<open>downloadApp\<close>: the requests sent, in order, and what is shown.\<close>

definition downloadApp ::
  "service \<Rightarrow> int \<Rightarrow> int \<Rightarrow> int option \<Rightarrow> real option \<Rightarrow> request list \<times> outcome" where
  "downloadApp svc app sdk optDensity devicePixelRatio =
     (let requested = requestedDensity optDensity devicePixelRatio;
          st0 = \<lparr> calls = [], lastData = None,
                  lastMeta = \<lparr> screenDensity = requested, withoutSplitsUsed = False \<rparr> \<rparr>
      in case try_densities svc app sdk (densityCandidates requested) st0 of
           (Rendered v, st) \<Rightarrow> (calls st, Success v)
         | (Next, st) \<Rightarrow> (calls st, EmptyAfterExhaustion (lastData st))
         | (Thrown msg, st) \<Rightarrow>
             (calls st, Failure (if msg \<noteq> [] then msg else ''Please try again'')))"


section \<open>The trial list, and what a response means for the loop\<close>

definition mk_request :: "int \<Rightarrow> int \<Rightarrow> int \<Rightarrow> bool \<Rightarrow> request" where
  "mk_request app sdk density withoutSplits =
     \<lparr> req_appId = app, req_sdkVersion = sdk,
       req_screenDensity = density, req_withoutSplits = withoutSplits \<rparr>"

text \<open>
  The ordered profile trial list of the specification: the density sequence crossed with
  \<open>withoutSplits \<in> {false, true}\<close>, false first, density by density.
\<close>

definition profile_trials :: "int \<Rightarrow> int \<Rightarrow> int list \<Rightarrow> request list" where
  "profile_trials app sdk densities =
     concat (map (\<lambda>d. [mk_request app sdk d False, mk_request app sdk d True]) densities)"

definition trials_of :: "int \<Rightarrow> int \<Rightarrow> int option \<Rightarrow> real option \<Rightarrow> request list" where
  "trials_of app sdk optDensity devicePixelRatio =
     profile_trials app sdk (densityCandidates (requestedDensity optDensity devicePixelRatio))"

text \<open>The object that a response parses to, if it does.\<close>

fun data_of :: "fetched \<Rightarrow> envelope option" where
  "data_of (Response status (Inr d)) = Some d"
| "data_of _ = None"

text \<open>Success status: a 2xx response whose object has the code \<open>OK\<close>.\<close>

fun success_status :: "fetched \<Rightarrow> bool" where
  "success_status (Response status (Inr d)) = (response_ok status \<and> code d = Some ''OK'')"
| "success_status _ = False"

text \<open>Error status: anything else (a non-2xx status, a code other than \<open>OK\<close>, no response, no JSON).\<close>

definition error_status :: "fetched \<Rightarrow> bool" where
  "error_status f = (\<not> success_status f)"

definition artifacts :: "fetched \<Rightarrow> download_url list" where
  "artifacts f = (case data_of f of None \<Rightarrow> [] | Some d \<Rightarrow> urls_of d)"

definition empty_result :: "fetched \<Rightarrow> bool" where
  "empty_result f = (success_status f \<and> artifacts f = [])"


text \<open>One iteration of the loop body, and the nested iteration read as a single loop over a list of requests.\<close>

definition trial :: "service \<Rightarrow> request \<Rightarrow> trial_state \<Rightarrow> flow \<times> trial_state" where
  "trial svc req st =
     try_splits svc (req_appId req) (req_sdkVersion req) (req_screenDensity req)
       [req_withoutSplits req] st"

fun run_trials :: "service \<Rightarrow> request list \<Rightarrow> trial_state \<Rightarrow> flow \<times> trial_state" where
  "run_trials svc [] st = (Next, st)"
| "run_trials svc (req # rest) st =
     (case trial svc req st of
        (Next, st') \<Rightarrow> run_trials svc rest st'
      | (Rendered v, st') \<Rightarrow> (Rendered v, st')
      | (Thrown msg, st') \<Rightarrow> (Thrown msg, st'))"

text \<open>The profile of a request, as \<open>lastMeta\<close> records it.\<close>

definition meta_of :: "request \<Rightarrow> meta" where
  "meta_of req = \<lparr> screenDensity = req_screenDensity req, withoutSplitsUsed = req_withoutSplits req \<rparr>"


section \<open>Reading decimal digits back\<close>

definition is_digit :: "char \<Rightarrow> bool" where
  "is_digit c = (48 \<le> (of_char c :: nat) \<and> (of_char c :: nat) \<le> 57)"

definition digit_val :: "char \<Rightarrow> nat" where
  "digit_val c = of_char c - 48"

definition nat_of_digits :: "string \<Rightarrow> nat" where
  "nat_of_digits s = foldl (\<lambda>acc c. 10 * acc + digit_val c) 0 s"


section \<open>Example inputs\<close>

definition example_urls :: "download_url list" where
  "example_urls =
     [\<lparr> u_url = Some ''https://cdn/a'', u_size = Some 5, u_hash = Some ''ab-cd!!12345678901234'' \<rparr>,
      \<lparr> u_url = None, u_size = Some 100, u_hash = None \<rparr>,
      \<lparr> u_url = Some ''https://cdn/b'', u_size = Some 9, u_hash = None \<rparr>,
      \<lparr> u_url = Some ''https://cdn/c'', u_size = Some 9, u_hash = Some ''--'' \<rparr>,
      \<lparr> u_url = Some ''https://cdn/d'', u_size = None, u_hash = Some ''ff'' \<rparr>]"

definition ok_envelope :: "download_url list \<Rightarrow> envelope" where
  "ok_envelope us =
     \<lparr> code = Some ''OK'', message = None,
       body = Some \<lparr> appId = Some (JNum 42), versionCode = Some (JNum 7),
                     versionId = Some (JNum 1001), signature = None,
                     downloadUrls = Some us \<rparr> \<rparr>"


text \<open>A service that answers every request with a code other than \<open>OK\<close>.\<close>

definition mock_error :: service where
  "mock_error n req =
     Response 200 (Inr \<lparr> code = Some ''ERROR'', message = Some ''App not found'', body = None \<rparr>)"

text \<open>A service that answers \<open>OK\<close> with an empty list, and the number of the request as version id.\<close>

definition mock_all_empty :: service where
  "mock_all_empty n req =
     Response 200 (Inr \<lparr> code = Some ''OK'', message = None,
       body = Some \<lparr> appId = Some (JNum 42), versionCode = Some (JNum 7),
                     versionId = Some (JNum (int n)), signature = None,
                     downloadUrls = Some [] \<rparr> \<rparr>)"

text \<open>A service that answers the first two requests with an empty list and then is unavailable.\<close>

definition mock_unavailable_third :: service where
  "mock_unavailable_third n req =
     (if n < 2 then Response 200 (Inr (ok_envelope []))
      else Response 503 (Inr \<lparr> code = None, message = Some ''Service unavailable'', body = None \<rparr>))"


section \<open>Decimal rendering is injective\<close>

lemma is_digit_digit_char: "d < 10 \<Longrightarrow> is_digit (digit_char d)"
  by (simp add: is_digit_def digit_char_def)

lemma digit_val_digit_char: "d < 10 \<Longrightarrow> digit_val (digit_char d) = d"
  by (simp add: digit_val_def digit_char_def)

lemma string_of_nat_digits: "\<forall>c \<in> set (string_of_nat n). is_digit c"
proof (induction n rule: string_of_nat.induct)
  case (1 n)
  show ?case
  proof (cases "n < 10")
    case True
    then show ?thesis by (subst string_of_nat.simps) (simp add: is_digit_digit_char)
  next
    case False
    with 1 show ?thesis by (subst string_of_nat.simps) (simp add: is_digit_digit_char)
  qed
qed

lemma string_of_nat_nonempty: "string_of_nat n \<noteq> []"
  by (subst string_of_nat.simps) simp

lemma nat_of_digits_string_of_nat: "nat_of_digits (string_of_nat n) = n"
proof (induction n rule: string_of_nat.induct)
  case (1 n)
  show ?case
  proof (cases "n < 10")
    case True
    then show ?thesis
      by (subst string_of_nat.simps) (simp add: nat_of_digits_def digit_val_digit_char)
  next
    case False
    with 1 have "nat_of_digits (string_of_nat (n div 10)) = n div 10" by simp
    with False show ?thesis
      by (subst string_of_nat.simps) (simp add: nat_of_digits_def digit_val_digit_char)
  qed
qed

lemma string_of_nat_inj: "string_of_nat n = string_of_nat m \<Longrightarrow> n = m"
  by (metis nat_of_digits_string_of_nat)

lemma takeWhile_digits:
  assumes "\<not> is_digit c"
  shows "takeWhile is_digit (string_of_nat n @ c # r) = string_of_nat n"
  using assms string_of_nat_digits [of n] by (simp add: takeWhile_append2)

lemma string_of_nat_terminated_inj:
  assumes "string_of_nat n @ c # r = string_of_nat m @ d # s" "\<not> is_digit c" "\<not> is_digit d"
  shows "n = m"
proof -
  have "takeWhile is_digit (string_of_nat n @ c # r) = takeWhile is_digit (string_of_nat m @ d # s)"
    using assms(1) by simp
  then have "string_of_nat n = string_of_nat m"
    using assms(2,3) by (simp add: takeWhile_digits)
  then show ?thesis by (rule string_of_nat_inj)
qed



section \<open>The largest item, and the items of a list of entries\<close>

lemma insert_by_hd:
  "hd (insert_by cmp x ys) = (if ys = [] \<or> cmp x (hd ys) \<le> 0 then x else hd ys)"
  by (cases ys) auto

lemma insert_by_nonempty: "insert_by cmp x ys \<noteq> []"
  by (cases ys) auto

lemma js_sort_Cons: "js_sort cmp (x # xs) = insert_by cmp x (js_sort cmp xs)"
  by (simp add: js_sort_def)

lemma js_sort_Nil: "js_sort cmp [] = []"
  by (simp add: js_sort_def)

lemma js_sort_nonempty: "xs \<noteq> [] \<Longrightarrow> js_sort cmp xs \<noteq> []"
  by (cases xs) (simp_all add: js_sort_Cons insert_by_nonempty)

text \<open>The head of the items sorted by size: the first item of greatest size.\<close>

lemma hd_sorted_by_size:
  assumes "xs \<noteq> []"
  shows "\<exists>ys zs. xs = ys @ hd (js_sort by_size_desc xs) # zs
           \<and> (\<forall>y \<in> set ys. size_or_0 (size' y) < size_or_0 (size' (hd (js_sort by_size_desc xs))))
           \<and> (\<forall>z \<in> set zs. size_or_0 (size' z) \<le> size_or_0 (size' (hd (js_sort by_size_desc xs))))"
  using assms
proof (induction xs)
  case Nil
  then show ?case by simp
next
  case (Cons x xs)
  show ?case
  proof (cases "xs = []")
    case True
    have "[x] = [] @ x # [] \<and> (\<forall>y \<in> set []. size_or_0 (size' y) < size_or_0 (size' x))
           \<and> (\<forall>z \<in> set []. size_or_0 (size' z) \<le> size_or_0 (size' x))" by simp
    then have "\<exists>ys zs. [x] = ys @ x # zs \<and> (\<forall>y \<in> set ys. size_or_0 (size' y) < size_or_0 (size' x))
           \<and> (\<forall>z \<in> set zs. size_or_0 (size' z) \<le> size_or_0 (size' x))" by blast
    then show ?thesis using True by (simp add: js_sort_Cons js_sort_Nil)
  next
    case False
    let ?m = "hd (js_sort by_size_desc xs)"
    from Cons.IH [OF False] obtain ys zs where
      split: "xs = ys @ ?m # zs"
      and before: "\<forall>y \<in> set ys. size_or_0 (size' y) < size_or_0 (size' ?m)"
      and after: "\<forall>z \<in> set zs. size_or_0 (size' z) \<le> size_or_0 (size' ?m)"
      by blast
    have ne: "js_sort by_size_desc xs \<noteq> []" using False by (rule js_sort_nonempty)
    show ?thesis
    proof (cases "by_size_desc x ?m \<le> 0")
      case True
      then have h: "hd (js_sort by_size_desc (x # xs)) = x"
        using ne by (simp add: js_sort_Cons insert_by_hd)
      have le: "size_or_0 (size' ?m) \<le> size_or_0 (size' x)"
        using True by (simp add: by_size_desc_def)
      have "\<forall>z \<in> set xs. size_or_0 (size' z) \<le> size_or_0 (size' x)"
      proof
        fix z assume "z \<in> set xs"
        then have "z \<in> set ys \<or> z = ?m \<or> z \<in> set zs"
          by (subst (asm) split) auto
        then have "size_or_0 (size' z) \<le> size_or_0 (size' ?m)"
          using before after by auto
        then show "size_or_0 (size' z) \<le> size_or_0 (size' x)" using le by simp
      qed
      then have "x # xs = [] @ x # xs \<and> (\<forall>y \<in> set []. size_or_0 (size' y) < size_or_0 (size' x))
           \<and> (\<forall>z \<in> set xs. size_or_0 (size' z) \<le> size_or_0 (size' x))" by simp
      then show ?thesis unfolding h by blast
    next
      case False
      then have h: "hd (js_sort by_size_desc (x # xs)) = ?m"
        using ne by (simp add: js_sort_Cons insert_by_hd)
      have lt: "size_or_0 (size' x) < size_or_0 (size' ?m)"
        using False by (simp add: by_size_desc_def)
      have "x # xs = (x # ys) @ ?m # zs" using split by simp
      moreover have "\<forall>y \<in> set (x # ys). size_or_0 (size' y) < size_or_0 (size' ?m)"
        using before lt by simp
      ultimately show ?thesis unfolding h using after by blast
    qed
  qed
qed

lemma enumerate_as_map: "enumerate 0 urls = map (\<lambda>k. (k, urls ! k)) [0..<length urls]"
  by (rule nth_equalityI) (simp_all add: nth_enumerate_eq)

lemma items_of_as_map:
  "items_of urls =
     map (\<lambda>k. mk_item (k, urls ! k)) (filter (\<lambda>k. truthy (u_url (urls ! k))) [0..<length urls])"
  by (simp add: items_of_def enumerate_as_map filter_map comp_def mk_item_def)

lemma idx_items_of:
  "map idx (items_of urls) = filter (\<lambda>k. truthy (u_url (urls ! k))) [0..<length urls]"
  by (simp add: items_of_as_map comp_def mk_item_def)

lemma items_of_idx_sorted: "sorted_wrt (<) (map idx (items_of urls))"
  unfolding idx_items_of by (rule sorted_wrt_filter) (simp add: sorted_wrt_upt)

lemma items_of_idx_distinct: "distinct (map idx (items_of urls))"
  unfolding idx_items_of by simp

lemma in_items_of:
  assumes "i \<in> set (items_of urls)"
  shows "idx i < length urls \<and> truthy (u_url (urls ! idx i)) \<and> i = mk_item (idx i, urls ! idx i)"
  using assms by (auto simp: items_of_as_map mk_item_def)

lemma items_of_complete:
  assumes "k < length urls" "truthy (u_url (urls ! k))"
  shows "mk_item (k, urls ! k) \<in> set (items_of urls)"
  using assms by (auto simp: items_of_as_map)


section \<open>The second pass of the plan\<close>

lemma plan_map_length: "length (plan_map a v b c xs) = length xs"
  by (induction xs arbitrary: c) (simp_all add: Let_def)

lemma plan_map_idx: "map idx (plan_map a v b c xs) = map idx xs"
  by (induction xs arbitrary: c) (simp_all add: Let_def item.defs)

lemma plan_map_base:
  "filter (\<lambda>p. role p = Base) (plan_map a v b c xs) =
     map (\<lambda>i. item.extend i \<lparr> role = Base, filename = base_filename a v (safe_hash (hash i)) \<rparr>)
       (filter (\<lambda>i. Some (idx i) = b) xs)"
  by (induction xs arbitrary: c) (simp_all add: Let_def item.defs)

lemma plan_map_config:
  "filter (\<lambda>p. role p = Config) (plan_map a v b c xs) =
     map (\<lambda>(n, i). item.extend i \<lparr> role = Config, filename = config_filename a v n (safe_hash (hash i)) \<rparr>)
       (zip [c..<c + length (filter (\<lambda>i. Some (idx i) \<noteq> b) xs)] (filter (\<lambda>i. Some (idx i) \<noteq> b) xs))"
proof (induction xs arbitrary: c)
  case Nil
  then show ?case by simp
next
  case (Cons x xs)
  show ?case
  proof (cases "Some (idx x) = b")
    case True
    then show ?thesis using Cons.IH [of c] by (simp add: Let_def item.defs)
  next
    case False
    have "[c..<c + Suc n] = c # [c + 1..<c + 1 + n]" for n
      by (simp add: upt_conv_Cons)
    then show ?thesis using False Cons.IH [of "c + 1"] by (simp add: Let_def item.defs)
  qed
qed

lemma plan_map_nth:
  "k < length xs \<Longrightarrow>
     plan_map a v b c xs ! k =
       (if Some (idx (xs ! k)) = b
        then item.extend (xs ! k) \<lparr> role = Base, filename = base_filename a v (safe_hash (hash (xs ! k))) \<rparr>
        else item.extend (xs ! k)
               \<lparr> role = Config,
                 filename = config_filename a v
                   (c + length (filter (\<lambda>i. Some (idx i) \<noteq> b) (take k xs))) (safe_hash (hash (xs ! k))) \<rparr>)"
proof (induction xs arbitrary: c k)
  case Nil
  then show ?case by simp
next
  case (Cons x xs)
  show ?case
  proof (cases k)
    case 0
    then show ?thesis by (simp add: Let_def)
  next
    case (Suc j)
    then have j: "j < length xs" using Cons.prems by simp
    show ?thesis
    proof (cases "Some (idx x) = b")
      case True
      then show ?thesis using Cons.IH [OF j, of c] Suc by (simp add: Let_def)
    next
      case False
      then show ?thesis using Cons.IH [OF j, of "c + 1"] Suc by (simp add: Let_def)
    qed
  qed
qed

lemma plan_map_role_count:
  "length (filter (\<lambda>p. role p = Config) (plan_map a v b c xs)) =
     length (filter (\<lambda>i. Some (idx i) \<noteq> b) xs)"
  by (simp add: plan_map_config)

lemma plan_map_take: "take k (plan_map a v b c xs) = plan_map a v b c (take k xs)"
proof (induction xs arbitrary: c k)
  case Nil
  then show ?case by simp
next
  case (Cons x xs)
  then show ?case by (cases k) (simp_all add: Let_def)
qed

lemma filter_unique_idx:
  assumes "distinct (map idx xs)" "m \<in> set xs"
  shows "filter (\<lambda>i. Some (idx i) = Some (idx m)) xs = [m]"
  using assms
proof (induction xs)
  case Nil
  then show ?case by simp
next
  case (Cons x xs)
  show ?case
  proof (cases "x = m")
    case True
    have "filter (\<lambda>i. idx i = idx m) xs = []"
      using Cons.prems(1) True by (simp add: filter_empty_conv) (metis imageI)
    then show ?thesis using True by simp
  next
    case False
    then have "m \<in> set xs" using Cons.prems(2) by simp
    moreover have "idx x \<noteq> idx m" using Cons.prems(1) \<open>m \<in> set xs\<close> by auto
    ultimately show ?thesis using Cons by simp
  qed
qed

lemma not_digit_underscore: "\<not> is_digit CHR ''_''"
  by (simp add: is_digit_def)

lemma not_digit_dot: "\<not> is_digit CHR ''.''"
  by (simp add: is_digit_def)

lemma hash_suffix_apk: "\<exists>c r. hash_suffix h @ ''.apk'' = c # r \<and> \<not> is_digit c"
  by (simp add: hash_suffix_def not_digit_underscore not_digit_dot)

lemma base_neq_config: "base_filename a v h \<noteq> config_filename a v n h'"
  by (simp add: base_filename_def config_filename_def)

lemma config_filename_inj:
  assumes "config_filename a v n h = config_filename a v m h'"
  shows "n = m"
proof -
  obtain c r where 1: "hash_suffix h @ ''.apk'' = c # r" "\<not> is_digit c"
    using hash_suffix_apk by blast
  obtain d s where 2: "hash_suffix h' @ ''.apk'' = d # s" "\<not> is_digit d"
    using hash_suffix_apk by blast
  have "string_of_nat n @ hash_suffix h @ ''.apk'' = string_of_nat m @ hash_suffix h' @ ''.apk''"
    using assms by (simp add: config_filename_def)
  then have "string_of_nat n @ c # r = string_of_nat m @ d # s"
    using 1(1) 2(1) by simp
  then show ?thesis using 1(2) 2(2) by (rule string_of_nat_terminated_inj)
qed

lemma plan_map_entries:
  assumes "p \<in> set (plan_map a v b c xs)"
  shows "(\<exists>i \<in> set xs. Some (idx i) = b \<and> filename p = base_filename a v (safe_hash (hash i)))
       \<or> (\<exists>n h. c \<le> n \<and> filename p = config_filename a v n h)"
  using assms
proof (induction xs arbitrary: c)
  case Nil
  then show ?case by simp
next
  case (Cons x xs)
  show ?case
  proof (cases "Some (idx x) = b")
    case True
    then have "p = item.extend x \<lparr> role = Base, filename = base_filename a v (safe_hash (hash x)) \<rparr>
        \<or> p \<in> set (plan_map a v b c xs)"
      using Cons.prems by (simp add: Let_def)
    then show ?thesis
    proof
      assume "p = item.extend x \<lparr> role = Base, filename = base_filename a v (safe_hash (hash x)) \<rparr>"
      then show ?thesis using True by (simp add: item.defs)
    next
      assume "p \<in> set (plan_map a v b c xs)"
      from Cons.IH [OF this] show ?thesis by auto
    qed
  next
    case False
    then have "p = item.extend x \<lparr> role = Config, filename = config_filename a v c (safe_hash (hash x)) \<rparr>
        \<or> p \<in> set (plan_map a v b (c + 1) xs)"
      using Cons.prems by (simp add: Let_def)
    then show ?thesis
    proof
      assume "p = item.extend x \<lparr> role = Config, filename = config_filename a v c (safe_hash (hash x)) \<rparr>"
      then have "c \<le> c \<and> filename p = config_filename a v c (safe_hash (hash x))"
        by (simp add: item.defs)
      then show ?thesis by blast
    next
      assume "p \<in> set (plan_map a v b (c + 1) xs)"
      from Cons.IH [OF this] show ?thesis
        by (metis add_leD1 list.set_intros(2))
    qed
  qed
qed

lemma plan_map_distinct:
  assumes "distinct (map idx xs)"
  shows "distinct (map filename (plan_map a v b c xs))"
  using assms
proof (induction xs arbitrary: c)
  case Nil
  then show ?case by simp
next
  case (Cons x xs)
  have dist: "distinct (map idx xs)" and fresh: "idx x \<notin> idx ` set xs"
    using Cons.prems by simp_all
  show ?case
  proof (cases "Some (idx x) = b")
    case True
    have "base_filename a v (safe_hash (hash x)) \<noteq> filename p"
      if "p \<in> set (plan_map a v b c xs)" for p
    proof -
      from plan_map_entries [OF that] show ?thesis
      proof
        assume "\<exists>i \<in> set xs. Some (idx i) = b \<and> filename p = base_filename a v (safe_hash (hash i))"
        then show ?thesis using True fresh by (metis imageI option.inject)
      next
        assume "\<exists>n h. c \<le> n \<and> filename p = config_filename a v n h"
        then show ?thesis using base_neq_config by metis
      qed
    qed
    then have "base_filename a v (safe_hash (hash x)) \<notin> filename ` set (plan_map a v b c xs)"
      by blast
    then show ?thesis using True Cons.IH [OF dist, of c] by (simp add: Let_def item.defs)
  next
    case False
    have "config_filename a v c (safe_hash (hash x)) \<noteq> filename p"
      if "p \<in> set (plan_map a v b (c + 1) xs)" for p
    proof -
      from plan_map_entries [OF that] show ?thesis
      proof
        assume "\<exists>i \<in> set xs. Some (idx i) = b \<and> filename p = base_filename a v (safe_hash (hash i))"
        then show ?thesis using base_neq_config by metis
      next
        assume "\<exists>n h. c + 1 \<le> n \<and> filename p = config_filename a v n h"
        then obtain n h where "c + 1 \<le> n" "filename p = config_filename a v n h" by blast
        then show ?thesis using config_filename_inj [of a v c "safe_hash (hash x)" n h] by auto
      qed
    qed
    then have "config_filename a v c (safe_hash (hash x)) \<notin> filename ` set (plan_map a v b (c + 1) xs)"
      by blast
    then show ?thesis using False Cons.IH [OF dist, of "c + 1"] by (simp add: Let_def item.defs)
  qed
qed


section \<open>Roles and numbers\<close>

lemma base_idx_hd:
  assumes "xs \<noteq> []"
  shows "base_idx xs = Some (idx (hd (js_sort by_size_desc xs)))"
  using js_sort_nonempty [OF assms, of by_size_desc]
  by (cases "js_sort by_size_desc xs") (simp_all add: base_idx_def)

lemma size_mk_item: "size' (mk_item (k, u)) = u_size u"
  by (simp add: mk_item_def)

lemma idx_mk_item: "idx (mk_item (k, u)) = k"
  by (simp add: mk_item_def)

lemma url_mk_item: "url (mk_item (k, u)) = u_url u"
  by (simp add: mk_item_def)

lemma safe_hash_mk_item: "safe_hash (hash (mk_item (k, u))) = safe_hash (u_hash u)"
  by (cases "u_hash u") (auto simp: mk_item_def safe_hash_def)

text \<open>
  Claim C5. When at least one entry of the list has a URL, exactly one entry of the plan has
  the role \<open>base\<close>. It is the entry, among those with a URL, of greatest size (a missing
  size counts as 0), and among several of greatest size the one that comes first in the
  input: every entry with a URL is at most as large, and every earlier one is strictly
  smaller.
\<close>

theorem C5_base_is_first_largest:
  assumes "\<exists>u \<in> set urls. truthy (u_url u)"
  shows "\<exists>k p. k < length urls \<and> truthy (u_url (urls ! k))
       \<and> (\<forall>j < length urls. truthy (u_url (urls ! j)) \<longrightarrow>
             size_or_0 (u_size (urls ! j)) \<le> size_or_0 (u_size (urls ! k)))
       \<and> (\<forall>j < k. truthy (u_url (urls ! j)) \<longrightarrow>
             size_or_0 (u_size (urls ! j)) < size_or_0 (u_size (urls ! k)))
       \<and> filter (\<lambda>p. role p = Base) (buildDownloadPlan app vc urls) = [p]
       \<and> idx p = k \<and> url p = u_url (urls ! k)"
proof -
  let ?items = "items_of urls"
  let ?m = "hd (js_sort by_size_desc ?items)"
  let ?k = "idx ?m"
  let ?sz = "\<lambda>j. size_or_0 (u_size (urls ! j))"
  from assms obtain j0 where "j0 < length urls" "truthy (u_url (urls ! j0))"
    by (auto simp: in_set_conv_nth)
  then have "mk_item (j0, urls ! j0) \<in> set ?items" by (rule items_of_complete)
  then have ne: "?items \<noteq> []" by auto
  from hd_sorted_by_size [OF ne] obtain ys zs where
    split: "?items = ys @ ?m # zs"
    and before: "\<forall>y \<in> set ys. size_or_0 (size' y) < size_or_0 (size' ?m)"
    and after: "\<forall>z \<in> set zs. size_or_0 (size' z) \<le> size_or_0 (size' ?m)"
    by blast
  have m_in: "?m \<in> set ?items" by (subst split) simp
  from in_items_of [OF m_in] have
    k_lt: "?k < length urls" and k_url: "truthy (u_url (urls ! ?k))"
    and m_eq: "?m = mk_item (?k, urls ! ?k)" by simp_all
  have m_size: "size_or_0 (size' ?m) = ?sz ?k"
    by (subst m_eq) (simp only: size_mk_item)
  have in_parts: "mk_item (j, urls ! j) \<in> set ys \<or> j = ?k \<or> mk_item (j, urls ! j) \<in> set zs"
    if "j < length urls" "truthy (u_url (urls ! j))" for j
  proof -
    have "mk_item (j, urls ! j) \<in> set ?items" using that by (rule items_of_complete)
    then have "mk_item (j, urls ! j) \<in> set ys \<or> mk_item (j, urls ! j) = ?m
        \<or> mk_item (j, urls ! j) \<in> set zs"
      by (subst (asm) split) auto
    moreover have "j = ?k" if "mk_item (j, urls ! j) = ?m"
      using arg_cong [OF that, of idx] by (simp add: idx_mk_item)
    ultimately show ?thesis by blast
  qed
  have greatest: "\<forall>j < length urls. truthy (u_url (urls ! j)) \<longrightarrow> ?sz j \<le> ?sz ?k"
  proof (intro allI impI)
    fix j assume j: "j < length urls" "truthy (u_url (urls ! j))"
    from in_parts [OF j] show "?sz j \<le> ?sz ?k"
    proof (elim disjE)
      assume "mk_item (j, urls ! j) \<in> set ys"
      with before have "size_or_0 (size' (mk_item (j, urls ! j))) < size_or_0 (size' ?m)" by blast
      then show ?thesis by (simp add: size_mk_item m_size)
    next
      assume "j = ?k" then show ?thesis by simp
    next
      assume "mk_item (j, urls ! j) \<in> set zs"
      with after have "size_or_0 (size' (mk_item (j, urls ! j))) \<le> size_or_0 (size' ?m)" by blast
      then show ?thesis by (simp add: size_mk_item m_size)
    qed
  qed
  have "sorted_wrt (<) (map idx (ys @ ?m # zs))"
    using items_of_idx_sorted [of urls] by (subst (asm) split)
  then have later: "\<forall>z \<in> set zs. ?k < idx z"
    by (simp add: sorted_wrt_append)
  have first: "\<forall>j < ?k. truthy (u_url (urls ! j)) \<longrightarrow> ?sz j < ?sz ?k"
  proof (intro allI impI)
    fix j assume j: "j < ?k" "truthy (u_url (urls ! j))"
    then have "j < length urls" using k_lt by simp
    from in_parts [OF this j(2)] show "?sz j < ?sz ?k"
    proof (elim disjE)
      assume "mk_item (j, urls ! j) \<in> set ys"
      with before have "size_or_0 (size' (mk_item (j, urls ! j))) < size_or_0 (size' ?m)" by blast
      then show ?thesis by (simp add: size_mk_item m_size)
    next
      assume "j = ?k" then show ?thesis using j(1) by simp
    next
      assume "mk_item (j, urls ! j) \<in> set zs"
      with later have "?k < idx (mk_item (j, urls ! j))" by blast
      then show ?thesis using j(1) by (simp add: idx_mk_item)
    qed
  qed
  let ?p = "item.extend ?m \<lparr> role = Base,
      filename = base_filename (string_of_int app) (version_code_str vc) (safe_hash (hash ?m)) \<rparr>"
  have "filter (\<lambda>i. Some (idx i) = base_idx ?items) ?items = [?m]"
    unfolding base_idx_hd [OF ne] using items_of_idx_distinct m_in by (rule filter_unique_idx)
  then have only: "filter (\<lambda>p. role p = Base) (buildDownloadPlan app vc urls) = [?p]"
    by (simp add: buildDownloadPlan_def Let_def plan_map_base)
  have "idx ?p = ?k" by (simp add: item.defs)
  moreover have "url ?p = u_url (urls ! ?k)"
    using arg_cong [OF m_eq, of url] by (simp add: item.defs url_mk_item)
  ultimately show ?thesis using k_lt k_url greatest first only by blast
qed

text \<open>
  Claim C6. The plan holds exactly the entries with a URL, in input order. The entries whose
  role is \<open>config\<close> keep their relative input order, and the n-th of them (counted from 0)
  carries the number n + 1 in its file name, whatever the sizes are.
\<close>

theorem C6_configs_numbered_in_input_order:
  "let plan = buildDownloadPlan app vc urls;
       configs = filter (\<lambda>p. role p = Config) plan
   in map idx plan = filter (\<lambda>k. truthy (u_url (urls ! k))) [0..<length urls]
    \<and> (\<forall>p \<in> set plan. url p = u_url (urls ! idx p))
    \<and> sorted_wrt (<) (map idx configs)
    \<and> (\<forall>n < length configs.
          filename (configs ! n) =
            config_filename (string_of_int app) (version_code_str vc) (n + 1)
              (safe_hash (u_hash (urls ! idx (configs ! n)))))"
proof -
  let ?a = "string_of_int app" and ?v = "version_code_str vc"
  let ?items = "items_of urls"
  let ?b = "base_idx ?items"
  let ?plan = "plan_map ?a ?v ?b 1 ?items"
  let ?cs = "filter (\<lambda>i. Some (idx i) \<noteq> ?b) ?items"
  let ?configs = "filter (\<lambda>p. role p = Config) ?plan"
  have 1: "map idx ?plan = filter (\<lambda>k. truthy (u_url (urls ! k))) [0..<length urls]"
    by (simp only: plan_map_idx idx_items_of)
  have 2: "\<forall>p \<in> set ?plan. url p = u_url (urls ! idx p)"
  proof
    fix p assume "p \<in> set ?plan"
    then obtain k where k: "k < length ?items" "p = ?plan ! k"
      by (auto simp: in_set_conv_nth plan_map_length)
    have "?items ! k \<in> set ?items" using k(1) by simp
    from in_items_of [OF this] have "?items ! k = mk_item (idx (?items ! k), urls ! idx (?items ! k))"
      by simp
    then have "url (?items ! k) = u_url (urls ! idx (?items ! k))"
      by (metis url_mk_item)
    then show "url p = u_url (urls ! idx p)"
      using k by (simp add: plan_map_nth item.defs)
  qed
  have "sorted_wrt (<) (map idx ?plan)"
    by (simp only: plan_map_idx items_of_idx_sorted)
  then have 3: "sorted_wrt (<) (map idx ?configs)"
    by (simp add: sorted_wrt_map sorted_wrt_filter)
  have cfg: "?configs = map (\<lambda>(n, i). item.extend i
        \<lparr> role = Config, filename = config_filename ?a ?v n (safe_hash (hash i)) \<rparr>)
      (zip [1..<1 + length ?cs] ?cs)"
    by (rule plan_map_config)
  have 4: "\<forall>n < length ?configs. filename (?configs ! n) =
      config_filename ?a ?v (n + 1) (safe_hash (u_hash (urls ! idx (?configs ! n))))"
  proof (intro allI impI)
    fix n assume "n < length ?configs"
    then have n: "n < length ?cs" by (simp add: plan_map_role_count)
    then have "?cs ! n \<in> set ?items" using nth_mem [OF n] by simp
    from in_items_of [OF this] have "?cs ! n = mk_item (idx (?cs ! n), urls ! idx (?cs ! n))"
      by simp
    then have h: "safe_hash (hash (?cs ! n)) = safe_hash (u_hash (urls ! idx (?cs ! n)))"
      by (metis safe_hash_mk_item)
    have "?configs ! n = item.extend (?cs ! n)
        \<lparr> role = Config, filename = config_filename ?a ?v (1 + n) (safe_hash (hash (?cs ! n))) \<rparr>"
      using n by (subst cfg) (simp del: upt_Suc)
    then show "filename (?configs ! n) =
        config_filename ?a ?v (n + 1) (safe_hash (u_hash (urls ! idx (?configs ! n))))"
      using h by (simp add: item.defs)
  qed
  from 1 2 3 4 show ?thesis by (simp only: buildDownloadPlan_def Let_def) 
qed


section \<open>File names\<close>

text \<open>
  Claim C7. The file name of every entry of the plan is \<open>rustore_\<close>, the application id,
  \<open>_\<close>, the version code (\<open>unknown\<close> when the response has none), \<open>_base\<close> for the base
  entry or \<open>_config\<close> and the entry's number among the config entries, then \<open>_\<close> and the
  first 12 alphanumeric characters of the hash when there is at least one such character,
  and \<open>.apk\<close>.
\<close>

theorem C7_filename_pattern:
  assumes "k < length (buildDownloadPlan app vc urls)"
  shows "filename (buildDownloadPlan app vc urls ! k) =
     ''rustore_'' @ string_of_int app @ ''_''
     @ (case vc of None \<Rightarrow> ''unknown'' | Some v \<Rightarrow> to_string v) @ ''_''
     @ (case role (buildDownloadPlan app vc urls ! k) of
          Base \<Rightarrow> ''base''
        | Config \<Rightarrow> ''config'' @ string_of_nat
            (length (filter (\<lambda>p. role p = Config) (take (Suc k) (buildDownloadPlan app vc urls)))))
     @ (let hash12 = take 12 (filter alnum
            (case u_hash (urls ! idx (buildDownloadPlan app vc urls ! k)) of None \<Rightarrow> [] | Some s \<Rightarrow> s))
        in if hash12 = [] then [] else ''_'' @ hash12)
     @ ''.apk''"
proof -
  let ?a = "string_of_int app" and ?v = "version_code_str vc"
  let ?items = "items_of urls"
  let ?b = "base_idx ?items"
  let ?plan = "plan_map ?a ?v ?b 1 ?items"
  let ?i = "?items ! k"
  have plan: "buildDownloadPlan app vc urls = ?plan"
    by (simp add: buildDownloadPlan_def Let_def)
  have k: "k < length ?items" using assms by (simp add: plan plan_map_length)
  then have "?i \<in> set ?items" by simp
  from in_items_of [OF this] have "?i = mk_item (idx ?i, urls ! idx ?i)" by simp
  then have h: "safe_hash (hash ?i) = safe_hash (u_hash (urls ! idx ?i))"
    by (metis safe_hash_mk_item)
  have count: "length (filter (\<lambda>p. role p = Config) (take (Suc k) ?plan)) =
      length (filter (\<lambda>i. Some (idx i) \<noteq> ?b) (take k ?items)) + (if Some (idx ?i) = ?b then 0 else 1)"
    using k by (simp add: plan_map_take plan_map_role_count take_Suc_conv_app_nth)
  have idx_k: "idx (?plan ! k) = idx ?i"
    using k nth_map [of k ?plan idx] by (simp add: plan_map_idx plan_map_length)
  have suffix: "(let hash12 = take 12 (filter alnum
            (case u_hash (urls ! idx (?plan ! k)) of None \<Rightarrow> [] | Some s \<Rightarrow> s))
        in if hash12 = [] then [] else ''_'' @ hash12) = hash_suffix (safe_hash (hash ?i))"
    by (simp only: idx_k h) (simp add: hash_suffix_def safe_hash_def Let_def)
  have version: "(case vc of None \<Rightarrow> ''unknown'' | Some v \<Rightarrow> to_string v) = ?v"
    by (simp add: version_code_str_def)
  show ?thesis
  proof (cases "Some (idx ?i) = ?b")
    case True
    then have "?plan ! k = item.extend ?i \<lparr> role = Base, filename = base_filename ?a ?v (safe_hash (hash ?i)) \<rparr>"
      using k by (simp add: plan_map_nth)
    then have "role (?plan ! k) = Base" "filename (?plan ! k) = base_filename ?a ?v (safe_hash (hash ?i))"
      by (simp_all add: item.defs)
    then show ?thesis unfolding plan suffix version
      by (simp add: base_filename_def)
  next
    case False
    then have "?plan ! k = item.extend ?i \<lparr> role = Config, filename = config_filename ?a ?v
        (1 + length (filter (\<lambda>i. Some (idx i) \<noteq> ?b) (take k ?items))) (safe_hash (hash ?i)) \<rparr>"
      using k by (simp add: plan_map_nth)
    then have "role (?plan ! k) = Config" "filename (?plan ! k) = config_filename ?a ?v
        (1 + length (filter (\<lambda>i. Some (idx i) \<noteq> ?b) (take k ?items))) (safe_hash (hash ?i))"
      by (simp_all add: item.defs)
    moreover have "length (filter (\<lambda>p. role p = Config) (take (Suc k) ?plan)) =
        1 + length (filter (\<lambda>i. Some (idx i) \<noteq> ?b) (take k ?items))"
      using count False by simp
    ultimately show ?thesis unfolding plan suffix version
      by (simp add: config_filename_def)
  qed
qed

text \<open>
  Claim C10. The file names of a plan are pairwise distinct, whatever the hashes are.
\<close>

theorem C10_filenames_distinct: "distinct (map filename (buildDownloadPlan app vc urls))"
  unfolding buildDownloadPlan_def Let_def
  using items_of_idx_distinct by (rule plan_map_distinct)

lemma example_plan_filenames:
  "map filename (buildDownloadPlan 42 None example_urls) =
     [''rustore_42_unknown_config1_abcd12345678.apk'', ''rustore_42_unknown_base.apk'',
      ''rustore_42_unknown_config2.apk'', ''rustore_42_unknown_config3_ff.apk'']"
  by code_simp

lemma example_plan_roles:
  "map (\<lambda>p. (idx p, role p)) (buildDownloadPlan 42 None example_urls) =
     [(0, Config), (2, Base), (3, Config), (4, Config)]"
  by code_simp

text \<open>
  The hash \<open>ab-cd!!12345678901234\<close> contributes exactly its first 12 alphanumeric
  characters.
\<close>

theorem C7_filename_pattern_witness:
  "0 < length (buildDownloadPlan 42 None example_urls)
   \<and> filename (buildDownloadPlan 42 None example_urls ! 0) = ''rustore_42_unknown_config1_abcd12345678.apk''"
proof -
  have h: "0 < length (buildDownloadPlan 42 None example_urls)" by code_simp
  have "filename (buildDownloadPlan 42 None example_urls ! 0) =
     ''rustore_'' @ string_of_int 42 @ ''_''
     @ (case None of None \<Rightarrow> ''unknown'' | Some v \<Rightarrow> to_string v) @ ''_''
     @ (case role (buildDownloadPlan 42 None example_urls ! 0) of
          Base \<Rightarrow> ''base''
        | Config \<Rightarrow> ''config'' @ string_of_nat
            (length (filter (\<lambda>p. role p = Config) (take (Suc 0) (buildDownloadPlan 42 None example_urls)))))
     @ (let hash12 = take 12 (filter alnum
            (case u_hash (example_urls ! idx (buildDownloadPlan 42 None example_urls ! 0)) of None \<Rightarrow> [] | Some s \<Rightarrow> s))
        in if hash12 = [] then [] else ''_'' @ hash12)
     @ ''.apk''"
    by (rule C7_filename_pattern [OF h])
  also have "\<dots> = ''rustore_42_unknown_config1_abcd12345678.apk''" by code_simp
  finally show ?thesis using h by simp
qed

text \<open>
  The example list has an entry with a URL, so the statement of C5 applies to it. (Its
  largest entry has no URL, and two entries share the greatest size among the others.)
\<close>

theorem C5_base_is_first_largest_witness:
  "(\<exists>u \<in> set example_urls. truthy (u_url u))
   \<and> (\<exists>k p. k < length example_urls \<and> truthy (u_url (example_urls ! k))
       \<and> (\<forall>j < length example_urls. truthy (u_url (example_urls ! j)) \<longrightarrow>
             size_or_0 (u_size (example_urls ! j)) \<le> size_or_0 (u_size (example_urls ! k)))
       \<and> (\<forall>j < k. truthy (u_url (example_urls ! j)) \<longrightarrow>
             size_or_0 (u_size (example_urls ! j)) < size_or_0 (u_size (example_urls ! k)))
       \<and> filter (\<lambda>p. role p = Base) (buildDownloadPlan 42 None example_urls) = [p]
       \<and> idx p = k \<and> url p = u_url (example_urls ! k))"
proof -
  have h: "\<exists>u \<in> set example_urls. truthy (u_url u)" by code_simp
  from h C5_base_is_first_largest [OF h, of 42 None] show ?thesis by (rule conjI)
qed


section \<open>The nested iteration as one loop over the trial list\<close>

lemma try_splits_as_trials:
  "try_splits svc app sdk d ws st = run_trials svc (map (mk_request app sdk d) ws) st"
proof (induction ws arbitrary: st)
  case Nil
  then show ?case by simp
next
  case (Cons w ws)
  show ?case
    by (simp add: trial_def mk_request_def Let_def Cons.IH split: sum.split)
qed

lemma run_trials_append:
  "run_trials svc (xs @ ys) st =
     (case run_trials svc xs st of
        (Next, st') \<Rightarrow> run_trials svc ys st'
      | (Rendered v, st') \<Rightarrow> (Rendered v, st')
      | (Thrown msg, st') \<Rightarrow> (Thrown msg, st'))"
proof (induction xs arbitrary: st)
  case Nil
  then show ?case by simp
next
  case (Cons x xs)
  then show ?case by (simp split: prod.split flow.split)
qed

lemma try_densities_as_trials:
  "try_densities svc app sdk ds st = run_trials svc (profile_trials app sdk ds) st"
proof (induction ds arbitrary: st)
  case Nil
  then show ?case by (simp add: profile_trials_def)
next
  case (Cons d ds)
  have "profile_trials app sdk (d # ds) =
      map (mk_request app sdk d) withoutSplitsCandidates @ profile_trials app sdk ds"
    by (simp add: profile_trials_def withoutSplitsCandidates_def)
  then show ?case
    by (simp add: try_splits_as_trials run_trials_append Cons.IH split: prod.split flow.split)
qed


section \<open>One trial, and runs of trials\<close>

lemma success_status_cases:
  assumes "success_status f"
  obtains status d where "f = Response status (Inr d)" "response_ok status" "code d = Some ''OK''"
  using assms by (cases f rule: success_status.cases) auto

lemma request_eta:
  "\<lparr> req_appId = req_appId r, req_sdkVersion = req_sdkVersion r,
     req_screenDensity = req_screenDensity r, req_withoutSplits = req_withoutSplits r \<rparr> = r"
  by simp

lemma trial_unfold:
  "trial svc req st =
     (let st1 = st\<lparr> calls := calls st @ [req] \<rparr>
      in case requestDownloadLink svc (length (calls st)) req of
           Inl msg \<Rightarrow> (Thrown msg, st1)
         | Inr data \<Rightarrow>
             if code data \<noteq> Some ''OK''
             then (Thrown (if truthy (message data) then template_str (message data)
                           else ''Server returned error''), st1)
             else
               let st2 = st1\<lparr> lastData := Some data, lastMeta := meta_of req \<rparr>
               in if length (urls_of data) > 0
                  then (Rendered (renderDownloadLinks (req_appId req) data (meta_of req)), st2)
                  else (Next, st2))"
  by (simp add: trial_def Let_def meta_of_def request_eta split: sum.split)

lemma trial_empty:
  assumes "empty_result (svc (length (calls st)) req)"
  shows "trial svc req st =
     (Next, st\<lparr> calls := calls st @ [req],
               lastData := data_of (svc (length (calls st)) req),
               lastMeta := meta_of req \<rparr>)"
proof -
  from assms have ok: "success_status (svc (length (calls st)) req)"
    and e: "artifacts (svc (length (calls st)) req) = []"
    by (simp_all add: empty_result_def)
  from ok obtain status d where f: "svc (length (calls st)) req = Response status (Inr d)"
    "response_ok status" "code d = Some ''OK''"
    by (rule success_status_cases)
  from e f(1) have "urls_of d = []" by (simp add: artifacts_def)
  with f show ?thesis
    by (simp add: trial_unfold requestDownloadLink_def Let_def)
qed


lemma trial_error:
  assumes "error_status (svc (length (calls st)) req)"
  shows "\<exists>msg. trial svc req st = (Thrown msg, st\<lparr> calls := calls st @ [req] \<rparr>)"
proof (cases "svc (length (calls st)) req")
  case (Rejected msg)
  then show ?thesis by (simp add: trial_unfold requestDownloadLink_def Let_def)
next
  case (Response status parsed)
  show ?thesis
  proof (cases "response_ok status")
    case False
    with Response show ?thesis by (simp add: trial_unfold requestDownloadLink_def Let_def)
  next
    case True
    show ?thesis
    proof (cases parsed)
      case (Inl msg)
      with True Response show ?thesis by (simp add: trial_unfold requestDownloadLink_def Let_def)
    next
      case (Inr d)
      with True Response assms have "code d \<noteq> Some ''OK''" by (simp add: error_status_def)
      with True Response Inr show ?thesis by (simp add: trial_unfold requestDownloadLink_def Let_def)
    qed
  qed
qed

text \<open>A run of trials that all come back empty goes through the whole list.\<close>

lemma run_trials_empty:
  assumes "\<forall>j < length rs. empty_result (svc (length (calls st) + j) (rs ! j))"
  shows "\<exists>st'. run_trials svc rs st = (Next, st') \<and> calls st' = calls st @ rs
           \<and> (rs \<noteq> [] \<longrightarrow>
                lastData st' = data_of (svc (length (calls st) + length rs - 1) (last rs))
                \<and> lastMeta st' = meta_of (last rs))"
  using assms
proof (induction rs rule: rev_induct)
  case Nil
  then show ?case by simp
next
  case (snoc r rs)
  have "\<forall>j < length rs. empty_result (svc (length (calls st) + j) (rs ! j))"
  proof (intro allI impI)
    fix j assume j: "j < length rs"
    then have "empty_result (svc (length (calls st) + j) ((rs @ [r]) ! j))"
      using snoc.prems by simp
    then show "empty_result (svc (length (calls st) + j) (rs ! j))"
      using j by (simp add: nth_append)
  qed
  from snoc.IH [OF this] obtain st' where
    run: "run_trials svc rs st = (Next, st')" and c: "calls st' = calls st @ rs" by blast
  have "length rs < length (rs @ [r])" by simp
  with snoc.prems have "empty_result (svc (length (calls st) + length rs) ((rs @ [r]) ! length rs))"
    by blast
  then have "empty_result (svc (length (calls st')) r)" by (simp add: c)
  then have "trial svc r st' =
     (Next, st'\<lparr> calls := calls st' @ [r],
               lastData := data_of (svc (length (calls st')) r),
               lastMeta := meta_of r \<rparr>)"
    by (rule trial_empty)
  then show ?case
    by (simp add: run_trials_append run c)
qed

lemma run_trials_stops:
  assumes "k < length rs"
    and "\<forall>j < k. empty_result (svc (length (calls st) + j) (rs ! j))"
  shows "\<exists>st'. calls st' = calls st @ take k rs \<and>
           run_trials svc rs st =
             (case trial svc (rs ! k) st' of
                (Next, st'') \<Rightarrow> run_trials svc (drop (Suc k) rs) st''
              | (Rendered v, st'') \<Rightarrow> (Rendered v, st'')
              | (Thrown msg, st'') \<Rightarrow> (Thrown msg, st''))"
proof -
  have "\<forall>j < length (take k rs). empty_result (svc (length (calls st) + j) (take k rs ! j))"
    using assms by simp
  from run_trials_empty [OF this] obtain st' where
    run: "run_trials svc (take k rs) st = (Next, st')" and c: "calls st' = calls st @ take k rs"
    by blast
  have "rs = take k rs @ rs ! k # drop (Suc k) rs"
    using assms(1) by (rule id_take_nth_drop)
  then have "run_trials svc rs st = run_trials svc (take k rs @ rs ! k # drop (Suc k) rs) st"
    by simp
  also have "\<dots> = run_trials svc (rs ! k # drop (Suc k) rs) st'"
    by (simp only: run_trials_append run prod.case flow.case)
  finally show ?thesis using c by auto
qed

lemma downloadApp_as_trials:
  "downloadApp svc app sdk optDensity dpr =
     (case run_trials svc (trials_of app sdk optDensity dpr)
             \<lparr> calls = [], lastData = None,
               lastMeta = \<lparr> screenDensity = requestedDensity optDensity dpr,
                            withoutSplitsUsed = False \<rparr> \<rparr> of
        (Rendered v, st) \<Rightarrow> (calls st, Success v)
      | (Next, st) \<Rightarrow> (calls st, EmptyAfterExhaustion (lastData st))
      | (Thrown msg, st) \<Rightarrow> (calls st, Failure (if msg \<noteq> [] then msg else ''Please try again'')))"
  by (simp add: downloadApp_def Let_def try_densities_as_trials trials_of_def)



section \<open>The density sequence\<close>

lemma guess_at_least_240: "240 \<le> guessAndroidScreenDensity dpr"
  by (simp add: guessAndroidScreenDensity_def Let_def)

lemma densityCandidates_eq:
  "densityCandidates r = r # filter (\<lambda>d. d \<noteq> r) [480, 320, 240, 160, 0]"
  by (simp add: densityCandidates_def)

text \<open>
  Claim C4. The density sequence is the requested density followed by the ladder
  480, 320, 240, 160, 0 without the requested density. It has no duplicates; a density
  given by the caller comes first; 0 occurs exactly once, and it is last unless the caller
  asked for 0.
\<close>

theorem C4_density_sequence:
  "let r = requestedDensity optDensity devicePixelRatio;
       ds = densityCandidates r
   in ds = r # filter (\<lambda>d. d \<noteq> r) [480, 320, 240, 160, 0]
    \<and> distinct ds
    \<and> (\<forall>d. optDensity = Some d \<longrightarrow> hd ds = d)
    \<and> count_list ds 0 = 1
    \<and> (optDensity \<noteq> Some 0 \<longrightarrow> last ds = 0)"
proof -
  let ?r = "requestedDensity optDensity devicePixelRatio"
  have eq: "densityCandidates ?r = ?r # filter (\<lambda>d. d \<noteq> ?r) [480, 320, 240, 160, 0]"
    by (rule densityCandidates_eq)
  have d: "distinct (?r # filter (\<lambda>d. d \<noteq> ?r) [480, 320, 240, 160, 0])" by simp
  have h: "\<forall>d. optDensity = Some d \<longrightarrow> hd (densityCandidates ?r) = d"
    by (simp add: densityCandidates_eq requestedDensity_def)
  have c: "count_list (?r # filter (\<lambda>d. d \<noteq> ?r) [480, 320, 240, 160, 0]) 0 = 1" by simp
  have "?r \<noteq> 0" if "optDensity \<noteq> Some 0"
  proof (cases optDensity)
    case None
    then show ?thesis using guess_at_least_240 [of devicePixelRatio]
      by (simp add: requestedDensity_def)
  next
    case (Some d)
    with that show ?thesis by (simp add: requestedDensity_def)
  qed
  then have l: "optDensity \<noteq> Some 0 \<longrightarrow> last (?r # filter (\<lambda>d. d \<noteq> ?r) [480, 320, 240, 160, 0]) = 0"
    by simp
  from eq d h c l show ?thesis by (simp only: Let_def) 
qed


section \<open>Outcomes of the resolver\<close>

lemma trials_nonempty: "trials_of app sdk optDensity dpr \<noteq> []"
  by (simp add: trials_of_def profile_trials_def densityCandidates_eq)



text \<open>
  Claim C2. If the response to the k-th request has an error status, all responses before
  it having success status and no artifact, then the outcome is \<open>Failure\<close> and the k-th
  request is the last one sent.
\<close>

theorem C2_error_status_aborts:
  assumes "k < length (trials_of app sdk optDensity dpr)"
    and "\<forall>j < k. empty_result (svc j (trials_of app sdk optDensity dpr ! j))"
    and "error_status (svc k (trials_of app sdk optDensity dpr ! k))"
  shows "\<exists>msg. downloadApp svc app sdk optDensity dpr =
           (take (Suc k) (trials_of app sdk optDensity dpr), Failure msg)"
proof -
  let ?ts = "trials_of app sdk optDensity dpr"
  let ?st0 = "\<lparr> calls = [], lastData = None,
      lastMeta = \<lparr> screenDensity = requestedDensity optDensity dpr, withoutSplitsUsed = False \<rparr> \<rparr>"
  have "\<forall>j < k. empty_result (svc (length (calls ?st0) + j) (?ts ! j))"
    using assms(2) by simp
  from run_trials_stops [OF assms(1) this] obtain st' where
    c: "calls st' = take k ?ts"
    and run: "run_trials svc ?ts ?st0 =
       (case trial svc (?ts ! k) st' of
          (Next, st'') \<Rightarrow> run_trials svc (drop (Suc k) ?ts) st''
        | (Rendered v, st'') \<Rightarrow> (Rendered v, st'')
        | (Thrown msg, st'') \<Rightarrow> (Thrown msg, st''))"
    by auto
  have "length (calls st') = k" using c assms(1) by simp
  then have "error_status (svc (length (calls st')) (?ts ! k))" using assms(3) by simp
  from trial_error [of svc st' "?ts ! k", OF this] obtain msg where
    t: "trial svc (?ts ! k) st' = (Thrown msg, st'\<lparr> calls := calls st' @ [?ts ! k] \<rparr>)"
    by blast
  have "take k ?ts @ [?ts ! k] = take (Suc k) ?ts"
    using assms(1) by (simp add: take_Suc_conv_app_nth)
  then have "downloadApp svc app sdk optDensity dpr =
      (take (Suc k) ?ts, Failure (if msg \<noteq> [] then msg else ''Please try again''))"
    by (simp add: downloadApp_as_trials run t c)
  then show ?thesis by blast
qed

text \<open>
  Claim C3. If every response has success status and no artifact, every request of the
  trial list is sent and the outcome is \<open>EmptyAfterExhaustion\<close>, carrying the response to
  the last request of the list.
\<close>

theorem C3_all_empty_is_exhaustion:
  assumes "\<forall>j < length (trials_of app sdk optDensity dpr).
             empty_result (svc j (trials_of app sdk optDensity dpr ! j))"
  shows "\<exists>d. data_of (svc (length (trials_of app sdk optDensity dpr) - 1)
                     (last (trials_of app sdk optDensity dpr))) = Some d
       \<and> downloadApp svc app sdk optDensity dpr =
           (trials_of app sdk optDensity dpr, EmptyAfterExhaustion (Some d))"
proof -
  let ?ts = "trials_of app sdk optDensity dpr"
  let ?st0 = "\<lparr> calls = [], lastData = None,
      lastMeta = \<lparr> screenDensity = requestedDensity optDensity dpr, withoutSplitsUsed = False \<rparr> \<rparr>"
  let ?f = "svc (length ?ts - 1) (last ?ts)"
  have ne: "?ts \<noteq> []" by (rule trials_nonempty)
  have "\<forall>j < length ?ts. empty_result (svc (length (calls ?st0) + j) (?ts ! j))"
    using assms by simp
  from run_trials_empty [OF this] obtain st' where
    run: "run_trials svc ?ts ?st0 = (Next, st')" and c: "calls st' = ?ts"
    and l: "lastData st' = data_of ?f"
    using ne by auto
  have "length ?ts - 1 < length ?ts" using ne by simp
  with assms have "empty_result (svc (length ?ts - 1) (?ts ! (length ?ts - 1)))" by blast
  then have "success_status ?f" using ne by (simp add: empty_result_def last_conv_nth)
  then obtain d where d: "data_of ?f = Some d"
    by (rule success_status_cases) simp
  have "downloadApp svc app sdk optDensity dpr = (?ts, EmptyAfterExhaustion (Some d))"
    using d by (simp add: downloadApp_as_trials run c l)
  with d show ?thesis by blast
qed


section \<open>The resolver on example services\<close>

lemma all_less_upt: "(\<forall>j < k. P j) = (\<forall>j \<in> set [0..<k]. P j)"
  by auto

lemma example_trials:
  "trials_of 42 21 (Some 480) None =
     [mk_request 42 21 480 False, mk_request 42 21 480 True,
      mk_request 42 21 320 False, mk_request 42 21 320 True,
      mk_request 42 21 240 False, mk_request 42 21 240 True,
      mk_request 42 21 160 False, mk_request 42 21 160 True,
      mk_request 42 21 0 False, mk_request 42 21 0 True]"
  by (simp add: trials_of_def profile_trials_def densityCandidates_eq requestedDensity_def)

lemma example_trials_zero:
  "trials_of 42 21 (Some 0) None =
     [mk_request 42 21 0 False, mk_request 42 21 0 True,
      mk_request 42 21 480 False, mk_request 42 21 480 True,
      mk_request 42 21 320 False, mk_request 42 21 320 True,
      mk_request 42 21 240 False, mk_request 42 21 240 True,
      mk_request 42 21 160 False, mk_request 42 21 160 True]"
  by (simp add: trials_of_def profile_trials_def densityCandidates_eq requestedDensity_def)


text \<open>A service that is unavailable from the third request on: three requests are sent.\<close>

theorem C2_error_status_aborts_witness:
  "\<exists>msg. downloadApp mock_unavailable_third 42 21 (Some 480) None =
     ([mk_request 42 21 480 False, mk_request 42 21 480 True, mk_request 42 21 320 False],
      Failure msg)"
proof -
  let ?ts = "trials_of 42 21 (Some 480) None"
  have h1: "2 < length ?ts" by (simp add: example_trials)
  have h2: "\<forall>j < 2. empty_result (mock_unavailable_third j (?ts ! j))"
    unfolding all_less_upt example_trials by code_simp
  have h3: "error_status (mock_unavailable_third 2 (?ts ! 2))"
    unfolding example_trials by code_simp
  from C2_error_status_aborts
    [where svc = mock_unavailable_third and k = 2 and app = 42 and sdk = 21
       and optDensity = "Some 480" and dpr = None, OF h1 h2 h3]
  show ?thesis
    by (simp add: example_trials)
qed

lemma example_unavailable_message:
  "downloadApp mock_unavailable_third 42 21 (Some 480) None =
     ([mk_request 42 21 480 False, mk_request 42 21 480 True, mk_request 42 21 320 False],
      Failure ''HTTP 503: Service unavailable'')"
  by code_simp

lemma example_error_on_first_trial:
  "downloadApp mock_error 42 21 (Some 480) None =
     ([mk_request 42 21 480 False], Failure ''App not found'')"
  by code_simp

text \<open>
  With density 0 requested, the last profile tried is (160, true), and the outcome carries
  the response to that tenth request.
\<close>

theorem C3_all_empty_is_exhaustion_witness:
  "downloadApp mock_all_empty 42 21 (Some 0) None =
     ([mk_request 42 21 0 False, mk_request 42 21 0 True,
       mk_request 42 21 480 False, mk_request 42 21 480 True,
       mk_request 42 21 320 False, mk_request 42 21 320 True,
       mk_request 42 21 240 False, mk_request 42 21 240 True,
       mk_request 42 21 160 False, mk_request 42 21 160 True],
      EmptyAfterExhaustion (data_of (mock_all_empty 9 (mk_request 42 21 160 True))))"
proof -
  let ?ts = "trials_of 42 21 (Some 0) None"
  have len: "length ?ts = 10" by (simp add: example_trials_zero)
  have h: "\<forall>j < length ?ts. empty_result (mock_all_empty j (?ts ! j))"
    unfolding len all_less_upt example_trials_zero by code_simp
  from C3_all_empty_is_exhaustion
    [where svc = mock_all_empty and app = 42 and sdk = 21
       and optDensity = "Some 0" and dpr = None, OF h]
  obtain d where
    d: "data_of (mock_all_empty (length ?ts - 1) (last ?ts)) = Some d"
    and r: "downloadApp mock_all_empty 42 21 (Some 0) None = (?ts, EmptyAfterExhaustion (Some d))"
    by blast
  have "length ?ts - 1 = 9" by (simp add: len)
  moreover have "last ?ts = mk_request 42 21 160 True" by (simp add: example_trials_zero)
  ultimately have "data_of (mock_all_empty 9 (mk_request 42 21 160 True)) = Some d"
    using d by simp
  with r show ?thesis by (simp only: example_trials_zero)
qed

text \<open>The sequence for the explicit density 640.\<close>

theorem C4_density_sequence_witness:
  "densityCandidates (requestedDensity (Some 640) None) = [640, 480, 320, 240, 160, 0]
   \<and> hd (densityCandidates (requestedDensity (Some 640) None)) = 640
   \<and> last (densityCandidates (requestedDensity (Some 640) None)) = 0"
proof -
  from C4_density_sequence [of "Some 640" None]
  have "densityCandidates (requestedDensity (Some 640) None) =
          requestedDensity (Some 640) None
          # filter (\<lambda>d. d \<noteq> requestedDensity (Some 640) None) [480, 320, 240, 160, 0]"
    and "\<forall>d. Some 640 = Some d \<longrightarrow> hd (densityCandidates (requestedDensity (Some 640) None)) = d"
    and "Some (640::int) \<noteq> Some 0 \<longrightarrow> last (densityCandidates (requestedDensity (Some 640) None)) = 0"
    unfolding Let_def by blast+
  then show ?thesis by (simp add: requestedDensity_def)
qed

lemma example_guessed_density:
  "densityCandidates (requestedDensity None (Some 2.5)) = [320, 480, 240, 160, 0]"
  by (simp add: densityCandidates_eq requestedDensity_def guessAndroidScreenDensity_def)


section \<open>The copy texts\<close>

lemma plan_map_url: "map url (plan_map a v b c xs) = map url xs"
  by (induction xs arbitrary: c) (simp_all add: Let_def item.defs)

lemma url_items_of: "map url (items_of urls) = filter truthy (map u_url urls)"
proof -
  have "map url (items_of urls) = filter truthy (map (url \<circ> mk_item) (enumerate 0 urls))"
    by (simp add: items_of_def filter_map comp_def)
  also have "url \<circ> mk_item = u_url \<circ> snd"
    by (rule ext) (simp add: mk_item_def split: prod.split)
  also have "map (u_url \<circ> snd) (enumerate 0 urls) = map u_url urls"
    by (simp flip: map_map)
  finally show ?thesis .
qed

lemma url_plan: "map url (buildDownloadPlan app vc urls) = filter truthy (map u_url urls)"
  by (simp add: buildDownloadPlan_def Let_def plan_map_url url_items_of)

lemma length_plan: "length (buildDownloadPlan app vc urls) = length (filter truthy (map u_url urls))"
  using arg_cong [OF url_plan, of length app vc urls] by simp

lemma install_line_pwsh:
  \<open>(''adb install-multiple @apks'' \<in> set (pwsh_lines p b)) = b\<close>
  by (auto simp: pwsh_lines_def)

lemma install_line_curl:
  \<open>(''adb install-multiple downloads/*.apk'' \<in> set (curl_lines p b)) = b\<close>
  by (auto simp: curl_lines_def)

lemma render_fields:
  "plan (renderDownloadLinks app data m) = buildDownloadPlan app (version_code_of data) (urls_of data)"
  "isSplitSet (renderDownloadLinks app data m) = (1 < length (plan (renderDownloadLinks app data m)))"
  "copyDownloadLinks (renderDownloadLinks app data m) =
     join_lines (map (\<lambda>p. template_str (url p)) (plan (renderDownloadLinks app data m)))"
  "copyPwshScript (renderDownloadLinks app data m) =
     join_lines (pwsh_lines (plan (renderDownloadLinks app data m))
       (1 < length (plan (renderDownloadLinks app data m))))"
  "copyCurlCommands (renderDownloadLinks app data m) =
     join_lines (curl_lines (plan (renderDownloadLinks app data m))
       (1 < length (plan (renderDownloadLinks app data m))))"
proof -
  let ?p = "buildDownloadPlan app (version_code_of data) (urls_of data)"
  let ?links = "filter truthy (map u_url (urls_of data))"
  have len: "length ?links = length ?p" by (simp only: length_plan)
  have len': "length (filter (truthy \<circ> u_url) (urls_of data)) = length ?p"
    using len by (simp add: comp_def)
  have links: "map template_str ?links = map (\<lambda>p. template_str (url p)) ?p"
    using arg_cong [OF url_plan, of "map template_str" app "version_code_of data" "urls_of data"]
    by (simp add: comp_def)
  show "plan (renderDownloadLinks app data m) = ?p"
    by (simp add: renderDownloadLinks_def Let_def)
  then show "isSplitSet (renderDownloadLinks app data m) = (1 < length (plan (renderDownloadLinks app data m)))"
    by (simp add: renderDownloadLinks_def Let_def len')
  show "copyDownloadLinks (renderDownloadLinks app data m) =
     join_lines (map (\<lambda>p. template_str (url p)) (plan (renderDownloadLinks app data m)))"
    by (simp add: renderDownloadLinks_def Let_def links)
  show "copyPwshScript (renderDownloadLinks app data m) =
     join_lines (pwsh_lines (plan (renderDownloadLinks app data m))
       (1 < length (plan (renderDownloadLinks app data m))))"
    by (simp add: renderDownloadLinks_def Let_def len')
  show "copyCurlCommands (renderDownloadLinks app data m) =
     join_lines (curl_lines (plan (renderDownloadLinks app data m))
       (1 < length (plan (renderDownloadLinks app data m))))"
    by (simp add: renderDownloadLinks_def Let_def len')
qed

lemma join_lines_Cons:
  "join_lines (l # ls) = l @ concat (map (\<lambda>m. CHR 0x0A # m) ls)"
  by (induction ls arbitrary: l) simp_all

lemma join_lines_append:
  "xs \<noteq> [] \<Longrightarrow> join_lines (xs @ ys) = join_lines xs @ concat (map (\<lambda>l. CHR 0x0A # l) ys)"
proof (induction xs rule: join_lines.induct)
  case 1
  then show ?case by simp
next
  case (2 l)
  show ?case by (simp add: join_lines_Cons)
next
  case (3 l m ls)
  then show ?case by simp
qed

lemma join_lines_last:
  "ls \<noteq> [] \<Longrightarrow> last ls \<noteq> [] \<Longrightarrow> join_lines ls \<noteq> [] \<and> last (join_lines ls) = last (last ls)"
proof (induction ls rule: join_lines.induct)
  case 1
  then show ?case by simp
next
  case (2 l)
  then show ?case by simp
next
  case (3 l m ls)
  then show ?case by simp
qed

lemma pwsh_script_text:
  \<open>join_lines (pwsh_lines p b) =
     join_lines
       ([''$ErrorActionPreference = "Stop"'',
         ''$outDir = Join-Path $PWD "downloads"'',
         ''New-Item -ItemType Directory -Force -Path $outDir | Out-Null'']
        @ map (\<lambda>item. ''Invoke-WebRequest -Uri "'' @ template_str (url item)
                       @ ''" -OutFile (Join-Path $outDir "'' @ filename item @ ''")'') p
        @ [''Write-Host "Done. Files saved to" $outDir''])
     @ (if b
        then concat (map (\<lambda>l. CHR 0x0A # l)
               [[],
                ''# Install (requires adb in PATH and USB debugging enabled)'',
                ''$apks = Get-ChildItem -Path $outDir -Filter "*.apk" | Sort-Object Length -Descending | Select-Object -ExpandProperty FullName'',
                ''Write-Host "Running: adb install-multiple <all apks>"'',
                ''adb install-multiple @apks''])
        else [])\<close>
proof -
  let ?base = \<open>[''$ErrorActionPreference = "Stop"'',
         ''$outDir = Join-Path $PWD "downloads"'',
         ''New-Item -ItemType Directory -Force -Path $outDir | Out-Null'']
        @ map (\<lambda>item. ''Invoke-WebRequest -Uri "'' @ template_str (url item)
                       @ ''" -OutFile (Join-Path $outDir "'' @ filename item @ ''")'') p
        @ [''Write-Host "Done. Files saved to" $outDir'']\<close>
  let ?install = \<open>[[],
                ''# Install (requires adb in PATH and USB debugging enabled)'',
                ''$apks = Get-ChildItem -Path $outDir -Filter "*.apk" | Sort-Object Length -Descending | Select-Object -ExpandProperty FullName'',
                ''Write-Host "Running: adb install-multiple <all apks>"'',
                ''adb install-multiple @apks'']\<close>
  have ne: "?base \<noteq> []" by simp
  have "pwsh_lines p b = ?base @ (if b then ?install else [])"
    by (simp add: pwsh_lines_def)
  then have "join_lines (pwsh_lines p b) = join_lines (?base @ (if b then ?install else []))"
    by (rule arg_cong)
  also have "\<dots> = join_lines ?base @ concat (map (\<lambda>l. CHR 0x0A # l) (if b then ?install else []))"
    using ne by (rule join_lines_append)
  finally show ?thesis by (simp only: if_distrib [of "\<lambda>ys. concat (map (\<lambda>l. CHR 0x0A # l) ys)"] list.map concat.simps)
qed

lemma curl_script_text:
  \<open>join_lines (curl_lines p b) =
     join_lines
       (''mkdir -p downloads''
        # map (\<lambda>item. ''curl -L "'' @ template_str (url item)
                       @ ''" -o "downloads/'' @ filename item @ ''"'') p)
     @ (if b
        then concat (map (\<lambda>l. CHR 0x0A # l)
               [[], ''# Install (requires adb)'', ''adb install-multiple downloads/*.apk''])
        else [])\<close>
proof -
  let ?base = \<open>''mkdir -p downloads''
        # map (\<lambda>item. ''curl -L "'' @ template_str (url item)
                       @ ''" -o "downloads/'' @ filename item @ ''"'') p\<close>
  let ?install = \<open>[[], ''# Install (requires adb)'', ''adb install-multiple downloads/*.apk'']\<close>
  have ne: "?base \<noteq> []" by simp
  have "curl_lines p b = ?base @ (if b then ?install else [])"
    by (simp add: curl_lines_def)
  then have "join_lines (curl_lines p b) = join_lines (?base @ (if b then ?install else []))"
    by (rule arg_cong)
  also have "\<dots> = join_lines ?base @ concat (map (\<lambda>l. CHR 0x0A # l) (if b then ?install else []))"
    using ne by (rule join_lines_append)
  finally show ?thesis by (simp only: if_distrib [of "\<lambda>ys. concat (map (\<lambda>l. CHR 0x0A # l) ys)"] list.map concat.simps)
qed

lemma pwsh_ends_with_install:
  \<open>(\<exists>pre. join_lines (pwsh_lines p b) = pre @ ''adb install-multiple @apks'') = b\<close>
proof (cases b)
  case True
  have "\<exists>pre. join_lines (pwsh_lines p True) = pre @ ''adb install-multiple @apks''"
    unfolding pwsh_script_text
    by (rule exI [of _ \<open>join_lines
       ([''$ErrorActionPreference = "Stop"'',
         ''$outDir = Join-Path $PWD "downloads"'',
         ''New-Item -ItemType Directory -Force -Path $outDir | Out-Null'']
        @ map (\<lambda>item. ''Invoke-WebRequest -Uri "'' @ template_str (url item)
                       @ ''" -OutFile (Join-Path $outDir "'' @ filename item @ ''")'') p
        @ [''Write-Host "Done. Files saved to" $outDir''])
      @ concat (map (\<lambda>l. CHR 0x0A # l)
               [[],
                ''# Install (requires adb in PATH and USB debugging enabled)'',
                ''$apks = Get-ChildItem -Path $outDir -Filter "*.apk" | Sort-Object Length -Descending | Select-Object -ExpandProperty FullName'',
                ''Write-Host "Running: adb install-multiple <all apks>"''])
      @ [CHR 0x0A]\<close>]) simp
  with True show ?thesis by simp
next
  case False
  have lines: "pwsh_lines p False \<noteq> []"
    \<open>last (pwsh_lines p False) = ''Write-Host "Done. Files saved to" $outDir''\<close>
    by (simp_all add: pwsh_lines_def)
  then have "last (pwsh_lines p False) \<noteq> []" by simp
  with lines(1) have "last (join_lines (pwsh_lines p False)) = last (last (pwsh_lines p False))"
    using join_lines_last by blast
  then have l: "last (join_lines (pwsh_lines p False)) = CHR ''r''"
    by (simp add: lines(2))
  have "\<not> (\<exists>pre. join_lines (pwsh_lines p False) = pre @ ''adb install-multiple @apks'')"
  proof
    assume "\<exists>pre. join_lines (pwsh_lines p False) = pre @ ''adb install-multiple @apks''"
    then obtain pre where "join_lines (pwsh_lines p False) = pre @ ''adb install-multiple @apks''"
      by blast
    then have "last (join_lines (pwsh_lines p False)) = CHR ''s''" by simp
    with l show False by simp
  qed
  with False show ?thesis by simp
qed

lemma curl_ends_with_install:
  \<open>(\<exists>pre. join_lines (curl_lines p b) = pre @ ''adb install-multiple downloads/*.apk'') = b\<close>
proof (cases b)
  case True
  have "\<exists>pre. join_lines (curl_lines p True) = pre @ ''adb install-multiple downloads/*.apk''"
    unfolding curl_script_text
    by (rule exI [of _ \<open>join_lines
       (''mkdir -p downloads''
        # map (\<lambda>item. ''curl -L "'' @ template_str (url item)
                       @ ''" -o "downloads/'' @ filename item @ ''"'') p)
      @ concat (map (\<lambda>l. CHR 0x0A # l) [[], ''# Install (requires adb)''])
      @ [CHR 0x0A]\<close>]) simp
  with True show ?thesis by simp
next
  case False
  have ne: "curl_lines p False \<noteq> []" by (simp add: curl_lines_def)
  have lastline: \<open>last (curl_lines p False) \<noteq> [] \<and> last (last (curl_lines p False)) \<noteq> CHR ''k''\<close>
    by (cases p rule: rev_cases) (simp_all add: curl_lines_def)
  with ne have "last (join_lines (curl_lines p False)) = last (last (curl_lines p False))"
    using join_lines_last by blast
  with lastline have l: "last (join_lines (curl_lines p False)) \<noteq> CHR ''k''" by simp
  have "\<not> (\<exists>pre. join_lines (curl_lines p False) = pre @ ''adb install-multiple downloads/*.apk'')"
  proof
    assume "\<exists>pre. join_lines (curl_lines p False) = pre @ ''adb install-multiple downloads/*.apk''"
    then obtain pre where
      "join_lines (curl_lines p False) = pre @ ''adb install-multiple downloads/*.apk''"
      by blast
    then have "last (join_lines (curl_lines p False)) = CHR ''k''" by simp
    with l show False by simp
  qed
  with False show ?thesis by simp
qed

text \<open>
  Claim C8. The three texts are functions of the plan alone: two renderings with the same
  plan give the same link list, the same PowerShell script and the same curl script. The
  link list is the URLs of the plan in its order, which is the order of the entries with a
  URL in the response. Each script is its heading lines and one download command for every
  entry of the plan, in the order of the plan, followed by the install lines, which end in
  the \<open>adb install-multiple\<close> command, when the plan has more than one entry and by
  nothing otherwise; so a script ends with that command exactly when the plan has more
  than one entry.
\<close>

theorem C8_formatters_depend_on_plan_only:
  \<open>let v = renderDownloadLinks app data m;
       v' = renderDownloadLinks app' data' m'
   in copyDownloadLinks v = join_lines (map (\<lambda>p. template_str (url p)) (plan v))
    \<and> map url (plan v) = filter truthy (map u_url (urls_of data))
    \<and> copyPwshScript v =
        join_lines
          ([''$ErrorActionPreference = "Stop"'',
            ''$outDir = Join-Path $PWD "downloads"'',
            ''New-Item -ItemType Directory -Force -Path $outDir | Out-Null'']
           @ map (\<lambda>p. ''Invoke-WebRequest -Uri "'' @ template_str (url p)
                       @ ''" -OutFile (Join-Path $outDir "'' @ filename p @ ''")'') (plan v)
           @ [''Write-Host "Done. Files saved to" $outDir''])
        @ (if 1 < length (plan v)
           then concat (map (\<lambda>l. CHR 0x0A # l)
                  [[],
                   ''# Install (requires adb in PATH and USB debugging enabled)'',
                   ''$apks = Get-ChildItem -Path $outDir -Filter "*.apk" | Sort-Object Length -Descending | Select-Object -ExpandProperty FullName'',
                   ''Write-Host "Running: adb install-multiple <all apks>"'',
                   ''adb install-multiple @apks''])
           else [])
    \<and> copyCurlCommands v =
        join_lines
          (''mkdir -p downloads''
           # map (\<lambda>p. ''curl -L "'' @ template_str (url p)
                       @ ''" -o "downloads/'' @ filename p @ ''"'') (plan v))
        @ (if 1 < length (plan v)
           then concat (map (\<lambda>l. CHR 0x0A # l)
                  [[], ''# Install (requires adb)'', ''adb install-multiple downloads/*.apk''])
           else [])
    \<and> (\<exists>pre. copyPwshScript v = pre @ ''adb install-multiple @apks'') = (1 < length (plan v))
    \<and> (\<exists>pre. copyCurlCommands v = pre @ ''adb install-multiple downloads/*.apk'')
        = (1 < length (plan v))
    \<and> (''adb install-multiple @apks'' \<in> set (pwsh_lines (plan v) (isSplitSet v)))
        = (1 < length (plan v))
    \<and> (''adb install-multiple downloads/*.apk'' \<in> set (curl_lines (plan v) (isSplitSet v)))
        = (1 < length (plan v))
    \<and> (plan v = plan v' \<longrightarrow>
          copyDownloadLinks v = copyDownloadLinks v'
        \<and> copyPwshScript v = copyPwshScript v'
        \<and> copyCurlCommands v = copyCurlCommands v')\<close>
proof -
  let ?v = "renderDownloadLinks app data m" and ?v' = "renderDownloadLinks app' data' m'"
  have 0: "map url (plan ?v) = filter truthy (map u_url (urls_of data))"
    by (simp only: render_fields(1) url_plan)
  have 1: "copyDownloadLinks ?v = join_lines (map (\<lambda>p. template_str (url p)) (plan ?v))"
    by (rule render_fields)
  have 2: \<open>(''adb install-multiple @apks'' \<in> set (pwsh_lines (plan ?v) (isSplitSet ?v)))
        = (1 < length (plan ?v))\<close>
    by (simp only: install_line_pwsh render_fields(2))
  have 3: \<open>(''adb install-multiple downloads/*.apk'' \<in> set (curl_lines (plan ?v) (isSplitSet ?v)))
        = (1 < length (plan ?v))\<close>
    by (simp only: install_line_curl render_fields(2))
  have 4: "copyDownloadLinks ?v = copyDownloadLinks ?v' \<and> copyPwshScript ?v = copyPwshScript ?v'
      \<and> copyCurlCommands ?v = copyCurlCommands ?v'" if "plan ?v = plan ?v'"
    using that by (simp only: render_fields(3,4,5))
  have 5: \<open>copyPwshScript ?v =
        join_lines
          ([''$ErrorActionPreference = "Stop"'',
            ''$outDir = Join-Path $PWD "downloads"'',
            ''New-Item -ItemType Directory -Force -Path $outDir | Out-Null'']
           @ map (\<lambda>p. ''Invoke-WebRequest -Uri "'' @ template_str (url p)
                       @ ''" -OutFile (Join-Path $outDir "'' @ filename p @ ''")'') (plan ?v)
           @ [''Write-Host "Done. Files saved to" $outDir''])
        @ (if 1 < length (plan ?v)
           then concat (map (\<lambda>l. CHR 0x0A # l)
                  [[],
                   ''# Install (requires adb in PATH and USB debugging enabled)'',
                   ''$apks = Get-ChildItem -Path $outDir -Filter "*.apk" | Sort-Object Length -Descending | Select-Object -ExpandProperty FullName'',
                   ''Write-Host "Running: adb install-multiple <all apks>"'',
                   ''adb install-multiple @apks''])
           else [])\<close>
    by (simp only: render_fields(4) pwsh_script_text)
  have 6: \<open>copyCurlCommands ?v =
        join_lines
          (''mkdir -p downloads''
           # map (\<lambda>p. ''curl -L "'' @ template_str (url p)
                       @ ''" -o "downloads/'' @ filename p @ ''"'') (plan ?v))
        @ (if 1 < length (plan ?v)
           then concat (map (\<lambda>l. CHR 0x0A # l)
                  [[], ''# Install (requires adb)'', ''adb install-multiple downloads/*.apk''])
           else [])\<close>
    by (simp only: render_fields(5) curl_script_text)
  have 7: \<open>(\<exists>pre. copyPwshScript ?v = pre @ ''adb install-multiple @apks'')
      = (1 < length (plan ?v))\<close>
    by (simp only: render_fields(4) pwsh_ends_with_install)
  have 8: \<open>(\<exists>pre. copyCurlCommands ?v = pre @ ''adb install-multiple downloads/*.apk'')
      = (1 < length (plan ?v))\<close>
    by (simp only: render_fields(5) curl_ends_with_install)
  show ?thesis unfolding Let_def
    by (intro conjI impI) (fact 1, fact 0, fact 5, fact 6, fact 7, fact 8, fact 2, fact 3,
      simp_all only: 4)
qed

text \<open>
  Two responses that differ in an entry without a URL, rendered for different profiles,
  have the same plan and the same curl script; that script, for four files, ends with the
  install lines, and the PowerShell script for a single file has none.
\<close>

theorem C8_formatters_depend_on_plan_only_witness:
  \<open>plan (renderDownloadLinks 42 (ok_envelope example_urls) \<lparr> screenDensity = 160, withoutSplitsUsed = True \<rparr>)
     = plan (renderDownloadLinks 42
         (ok_envelope (example_urls @ [\<lparr> u_url = None, u_size = Some 1, u_hash = None \<rparr>]))
         \<lparr> screenDensity = 480, withoutSplitsUsed = False \<rparr>)
   \<and> copyCurlCommands (renderDownloadLinks 42 (ok_envelope example_urls)
         \<lparr> screenDensity = 160, withoutSplitsUsed = True \<rparr>)
     = copyCurlCommands (renderDownloadLinks 42
         (ok_envelope (example_urls @ [\<lparr> u_url = None, u_size = Some 1, u_hash = None \<rparr>]))
         \<lparr> screenDensity = 480, withoutSplitsUsed = False \<rparr>)
   \<and> copyCurlCommands (renderDownloadLinks 42 (ok_envelope example_urls)
         \<lparr> screenDensity = 160, withoutSplitsUsed = True \<rparr>)
     = join_lines
        [''mkdir -p downloads'',
         ''curl -L "https://cdn/a" -o "downloads/rustore_42_7_config1_abcd12345678.apk"'',
         ''curl -L "https://cdn/b" -o "downloads/rustore_42_7_base.apk"'',
         ''curl -L "https://cdn/c" -o "downloads/rustore_42_7_config2.apk"'',
         ''curl -L "https://cdn/d" -o "downloads/rustore_42_7_config3_ff.apk"'',
         [],
         ''# Install (requires adb)'',
         ''adb install-multiple downloads/*.apk'']
   \<and> copyPwshScript (renderDownloadLinks 42
         (ok_envelope [\<lparr> u_url = Some ''https://cdn/a'', u_size = Some 5, u_hash = None \<rparr>])
         \<lparr> screenDensity = 160, withoutSplitsUsed = True \<rparr>)
     = join_lines
        [''$ErrorActionPreference = "Stop"'',
         ''$outDir = Join-Path $PWD "downloads"'',
         ''New-Item -ItemType Directory -Force -Path $outDir | Out-Null'',
         ''Invoke-WebRequest -Uri "https://cdn/a" -OutFile (Join-Path $outDir "rustore_42_7_base.apk")'',
         ''Write-Host "Done. Files saved to" $outDir'']\<close>
proof -
  let ?m = "\<lparr> screenDensity = 160, withoutSplitsUsed = True \<rparr>"
  let ?m' = "\<lparr> screenDensity = 480, withoutSplitsUsed = False \<rparr>"
  let ?d = "ok_envelope example_urls"
  let ?d' = "ok_envelope (example_urls @ [\<lparr> u_url = None, u_size = Some 1, u_hash = None \<rparr>])"
  let ?d1 = "ok_envelope [\<lparr> u_url = Some ''https://cdn/a'', u_size = Some 5, u_hash = None \<rparr>]"
  let ?v = "renderDownloadLinks 42 ?d ?m"
  let ?v' = "renderDownloadLinks 42 ?d' ?m'"
  let ?v1 = "renderDownloadLinks 42 ?d1 ?m"
  note split_set = C8_formatters_depend_on_plan_only [of 42 ?d ?m 42 ?d' ?m', unfolded Let_def]
  note single = C8_formatters_depend_on_plan_only [of 42 ?d1 ?m 42 ?d1 ?m, unfolded Let_def]
  note curl_text = split_set [THEN conjunct2, THEN conjunct2, THEN conjunct2, THEN conjunct1]
  note pwsh_text = single [THEN conjunct2, THEN conjunct2, THEN conjunct1]
  note same_plan = split_set [THEN conjunct2, THEN conjunct2, THEN conjunct2, THEN conjunct2,
      THEN conjunct2, THEN conjunct2, THEN conjunct2, THEN conjunct2]
  have h: "plan ?v = plan ?v'" by code_simp
  have same: "copyCurlCommands ?v = copyCurlCommands ?v'"
    using same_plan h by blast
  have curl: \<open>copyCurlCommands ?v =
      join_lines
        [''mkdir -p downloads'',
         ''curl -L "https://cdn/a" -o "downloads/rustore_42_7_config1_abcd12345678.apk"'',
         ''curl -L "https://cdn/b" -o "downloads/rustore_42_7_base.apk"'',
         ''curl -L "https://cdn/c" -o "downloads/rustore_42_7_config2.apk"'',
         ''curl -L "https://cdn/d" -o "downloads/rustore_42_7_config3_ff.apk"'',
         [],
         ''# Install (requires adb)'',
         ''adb install-multiple downloads/*.apk'']\<close>
    unfolding curl_text by code_simp
  have pwsh: \<open>copyPwshScript ?v1 =
      join_lines
        [''$ErrorActionPreference = "Stop"'',
         ''$outDir = Join-Path $PWD "downloads"'',
         ''New-Item -ItemType Directory -Force -Path $outDir | Out-Null'',
         ''Invoke-WebRequest -Uri "https://cdn/a" -OutFile (Join-Path $outDir "rustore_42_7_base.apk")'',
         ''Write-Host "Done. Files saved to" $outDir'']\<close>
    unfolding pwsh_text by code_simp
  from h same curl pwsh show ?thesis by (intro conjI)
qed

lemma example_curl_commands:
  \<open>copyCurlCommands (renderDownloadLinks 42 (ok_envelope example_urls)
      \<lparr> screenDensity = 160, withoutSplitsUsed = True \<rparr>) =
    join_lines
     [''mkdir -p downloads'',
      ''curl -L "https://cdn/a" -o "downloads/rustore_42_7_config1_abcd12345678.apk"'',
      ''curl -L "https://cdn/b" -o "downloads/rustore_42_7_base.apk"'',
      ''curl -L "https://cdn/c" -o "downloads/rustore_42_7_config2.apk"'',
      ''curl -L "https://cdn/d" -o "downloads/rustore_42_7_config3_ff.apk"'',
      [],
      ''# Install (requires adb)'',
      ''adb install-multiple downloads/*.apk'']\<close>
  by code_simp

lemma example_single_apk_script:
  \<open>copyCurlCommands (renderDownloadLinks 42
      (ok_envelope [\<lparr> u_url = Some ''https://cdn/a'', u_size = Some 5, u_hash = None \<rparr>])
      \<lparr> screenDensity = 160, withoutSplitsUsed = True \<rparr>) =
    join_lines
     [''mkdir -p downloads'',
      ''curl -L "https://cdn/a" -o "downloads/rustore_42_7_base.apk"'']\<close>
  by code_simp

text \<open>
  On the example list, the entry without a URL is dropped and the third config entry is
  number 3.
\<close>

theorem C6_configs_numbered_in_input_order_witness:
  "map idx (buildDownloadPlan 42 None example_urls) = [0, 2, 3, 4]
   \<and> length (filter (\<lambda>p. role p = Config) (buildDownloadPlan 42 None example_urls)) = 3
   \<and> filename (filter (\<lambda>p. role p = Config) (buildDownloadPlan 42 None example_urls) ! 2)
       = ''rustore_42_unknown_config3_ff.apk''"
proof -
  let ?plan = "buildDownloadPlan 42 None example_urls"
  let ?configs = "filter (\<lambda>p. role p = Config) ?plan"
  from C6_configs_numbered_in_input_order [of 42 None example_urls]
  have ids: "map idx ?plan = filter (\<lambda>k. truthy (u_url (example_urls ! k))) [0..<length example_urls]"
    and names: "\<forall>n < length ?configs. filename (?configs ! n) =
       config_filename (string_of_int 42) (version_code_str None) (n + 1)
         (safe_hash (u_hash (example_urls ! idx (?configs ! n))))"
    unfolding Let_def by blast+
  have len: "length ?configs = 3" by code_simp
  then have "2 < length ?configs" by simp
  with names have "filename (?configs ! 2) =
       config_filename (string_of_int 42) (version_code_str None) (2 + 1)
         (safe_hash (u_hash (example_urls ! idx (?configs ! 2))))"
    by blast
  also have "\<dots> = ''rustore_42_unknown_config3_ff.apk''" by code_simp
  finally have name: "filename (?configs ! 2) = ''rustore_42_unknown_config3_ff.apk''" .
  have "filter (\<lambda>k. truthy (u_url (example_urls ! k))) [0..<length example_urls] = [0, 2, 3, 4]"
    by code_simp
  with ids have "map idx ?plan = [0, 2, 3, 4]" by simp
  with len name show ?thesis by blast
qed

end
